theory Spec2Isabelle
  imports Main "HOL-Library.AList"
begin

section \<open>JavaScript values as the store sees them\<close>

text \<open>
  The store (\<^verbatim>\<open>src/store.js\<close>, the \<^verbatim>\<open>_Store\<close> object and its \<^verbatim>\<open>Store\<close> facade) handles
  plain data: scalars, arrays and nested objects, as registered by the application or decoded
  by \<^verbatim>\<open>JSON.parse\<close>.  A property key is a string; the canonical numeric strings are the
  array indices.  An object lists its own properties in the order
  \<^verbatim>\<open>Object.getOwnPropertyNames\<close> reports them.

  Modelling boundaries, stated once:
  \<^item> numbers are integers (the store never computes with them, it only looks at their type);
  \<^item> objects are trees: a value handed to the store is not shared with another object of the
    store, as with the object literals of the test-suite;
  \<^item> the members an object inherits from \<^verbatim>\<open>Object.prototype\<close> are seen where the source
    tests a name it was handed against \<^verbatim>\<open>undefined\<close>: \<^verbatim>\<open>_Store[key]\<close> in \<^verbatim>\<open>register\<close>
    and \<^verbatim>\<open>to[prop]\<close> in the merger of stored data; a program that reads or assigns such a
    name through the view is outside the model, and so are the members of
    \<^verbatim>\<open>Array.prototype\<close>;
  \<^item> arrays are dense and carry no named properties; where the source would create a hole or
    a named property on an array, or coerce a string or an object to compare it, the model
    answers \<open>Unmodelled\<close> and says nothing further.
\<close>

datatype pkey = Field string | Index nat

datatype jsval =
    JUndefined
  | JNull
  | JBool bool
  | JNum int
  | JStr string
  | JFun nat
  | JArr "jsval list"
  | JObj "(pkey \<times> jsval) list"

datatype jstype = T_undefined | T_object | T_boolean | T_number | T_string | T_function

text \<open>The \<^verbatim>\<open>typeof\<close> operator: \<^verbatim>\<open>null\<close>, arrays and objects are all \<^verbatim>\<open>'object'\<close>.\<close>

fun typeof :: "jsval \<Rightarrow> jstype" where
  "typeof JUndefined = T_undefined"
| "typeof JNull = T_object"
| "typeof (JBool b) = T_boolean"
| "typeof (JNum n) = T_number"
| "typeof (JStr s) = T_string"
| "typeof (JFun f) = T_function"
| "typeof (JArr xs) = T_object"
| "typeof (JObj ps) = T_object"

fun isArray :: "jsval \<Rightarrow> bool" where
  "isArray (JArr xs) = True"
| "isArray v = False"

text \<open>\<^verbatim>\<open>typeof v === 'object' && v !== null\<close>, the test that decides wrapping and recursion.\<close>

definition is_object :: "jsval \<Rightarrow> bool" where
  "is_object v = (typeof v = T_object \<and> v \<noteq> JNull)"

text \<open>\<^verbatim>\<open>typeof t === 'object' && !Array.isArray(t)\<close>, the guard of the structure rules.\<close>

definition plain_object :: "jsval \<Rightarrow> bool" where
  "plain_object t = (typeof t = T_object \<and> \<not> isArray t)"

text \<open>Reading \<^verbatim>\<open>v[prop]\<close> on a raw (unproxied) value; a missing property reads \<^verbatim>\<open>undefined\<close>.\<close>

fun getprop :: "jsval \<Rightarrow> pkey \<Rightarrow> jsval" where
  "getprop (JObj ps) k = (case map_of ps k of None \<Rightarrow> JUndefined | Some v \<Rightarrow> v)"
| "getprop (JArr xs) (Index i) = (if i < length xs then xs ! i else JUndefined)"
| "getprop (JArr xs) (Field f) =
     (if f = ''length'' then JNum (int (length xs)) else JUndefined)"
| "getprop (JStr s) (Index i) = (if i < length s then JStr [s ! i] else JUndefined)"
| "getprop (JStr s) (Field f) =
     (if f = ''length'' then JNum (int (length s)) else JUndefined)"
| "getprop v k = JUndefined"

text \<open>
  The names every object inherits from \<^verbatim>\<open>Object.prototype\<close>.  \<open>member t p\<close> is \<^verbatim>\<open>t[p]\<close>
  with them: an own property wins, an inherited name answers a function, and \<^verbatim>\<open>__proto__\<close>
  answers the prototype object itself.  Only the type of what an inherited name answers is
  ever looked at, so \<open>JFun 0\<close> and \<open>JObj []\<close> stand for the function and for the
  prototype.
\<close>

definition prototype_props :: "string list" where
  "prototype_props =
     [''constructor'', ''__defineGetter__'', ''__defineSetter__'', ''hasOwnProperty'',
      ''__lookupGetter__'', ''__lookupSetter__'', ''isPrototypeOf'', ''propertyIsEnumerable'',
      ''toString'', ''valueOf'', ''__proto__'', ''toLocaleString'']"

fun inherited_name :: "pkey \<Rightarrow> bool" where
  "inherited_name (Field n) = (n \<in> set prototype_props)"
| "inherited_name (Index i) = False"

fun inherits :: "jsval \<Rightarrow> pkey \<Rightarrow> bool" where
  "inherits (JObj ps) p = (inherited_name p \<and> p \<notin> fst ` set ps)"
| "inherits t p = False"

definition member :: "jsval \<Rightarrow> pkey \<Rightarrow> jsval" where
  "member t p =
     (if inherits t p then (if p = Field ''__proto__'' then JObj [] else JFun 0)
      else getprop t p)"

text \<open>
  The assignment \<^verbatim>\<open>t[prop] = v\<close> on a raw object or array.  An object keeps the position
  of an existing property and appends a new one.  An array accepts an index up to its length
  and a shrinking \<^verbatim>\<open>length\<close>; anything else is outside the model (\<open>None\<close>).
\<close>

fun setprop :: "jsval \<Rightarrow> pkey \<Rightarrow> jsval \<Rightarrow> jsval option" where
  "setprop (JObj ps) k v = Some (JObj (AList.update k v ps))"
| "setprop (JArr xs) (Index i) v =
     (if i < length xs then Some (JArr (xs[i := v]))
      else if i = length xs then Some (JArr (xs @ [v]))
      else None)"
| "setprop (JArr xs) (Field f) v =
     (if f = ''length'' then
        (case v of
           JNum n \<Rightarrow> if 0 \<le> n \<and> nat n \<le> length xs then Some (JArr (take (nat n) xs)) else None
         | _ \<Rightarrow> None)
      else None)"
| "setprop t k v = None"

text \<open>\<^verbatim>\<open>delete t[prop]\<close> on a raw object.\<close>

fun delprop :: "jsval \<Rightarrow> pkey \<Rightarrow> jsval" where
  "delprop (JObj ps) k = JObj (AList.delete k ps)"
| "delprop t k = t"

text \<open>
  The nested object \<^verbatim>\<open>t[prop]\<close> was mutated in place and is now \<open>v\<close>: the parent as a
  tree.  Only used where \<^verbatim>\<open>t[prop]\<close> is an existing object.
\<close>

fun replace_prop :: "jsval \<Rightarrow> pkey \<Rightarrow> jsval \<Rightarrow> jsval" where
  "replace_prop (JObj ps) k v = JObj (AList.update k v ps)"
| "replace_prop (JArr xs) (Index i) v = JArr (xs[i := v])"
| "replace_prop t k v = t"

text \<open>
  \<^verbatim>\<open>Object.getOwnPropertyNames(b)\<close> paired with \<^verbatim>\<open>b[prop]\<close>, for an object or an array:
  an array owns its indices, in order, and then \<^verbatim>\<open>length\<close>.
\<close>

fun own_props :: "jsval \<Rightarrow> (pkey \<times> jsval) list" where
  "own_props (JObj ps) = ps"
| "own_props (JArr xs) =
     zip (map Index [0..<length xs]) xs @ [(Field ''length'', JNum (int (length xs)))]"
| "own_props v = []"

text \<open>The value found by following a path of property names.\<close>

fun subvalue :: "jsval \<Rightarrow> pkey list \<Rightarrow> jsval" where
  "subvalue v [] = v"
| "subvalue v (p # ps) = subvalue (getprop v p) ps"

section \<open>Errors\<close>

text \<open>
  Every \<^verbatim>\<open>throw\<close> of the source is a value, named after its message; \<open>JsTypeError\<close> is
  the engine's own TypeError (a property of \<^verbatim>\<open>undefined\<close> or \<^verbatim>\<open>null\<close>, a Proxy of a
  non-object).
\<close>

datatype error =
    PersistentStructureMismatch
      \<comment> \<open>'Persistent structure does not match registered store object structure.'\<close>
  | StructureMismatch
      \<comment> \<open>'Assignment in Store must have the same structure as the definition.'\<close>
  | AssignmentInvalid
      \<comment> \<open>'Assignment invalid - does not match registered structure.'\<close>
  | HandlerNotObject
      \<comment> \<open>'Handler must be an Object. Type given: ...'\<close>
  | ReservedCached
      \<comment> \<open>'Can not register reserved store field '_cached''\<close>
  | ReservedPersisted
      \<comment> \<open>'Can not register reserved store field '_persisted' to non-boolean value'\<close>
  | AlreadyDefined string
      \<comment> \<open>'Store.<key> already defined.'\<close>
  | ReassignPersisted string
      \<comment> \<open>'Can not reassign Store.<key>._persisted'\<close>
  | JsTypeError
  | Unmodelled

section \<open>The structural validator\<close>

text \<open>
  \<^verbatim>\<open>_validateStructure(a0, b0)\<close> either returns or throws \<open>StructureMismatch\<close>; it changes
  nothing.  The model is \<open>True\<close> where the source returns.  \<open>validate_pass index a b\<close> is
  the body run for each of the pairs \<^verbatim>\<open>[a0, b0]\<close> (index 0) and \<^verbatim>\<open>[b0, a0]\<close> (index 1),
  \<open>validate_prop\<close> the body run for each own property of \<^verbatim>\<open>b\<close>.
\<close>

function validateStructure :: "jsval \<Rightarrow> jsval \<Rightarrow> bool"
  and validate_pass :: "nat \<Rightarrow> jsval \<Rightarrow> jsval \<Rightarrow> bool"
  and validate_prop :: "nat \<Rightarrow> jsval \<Rightarrow> pkey \<times> jsval \<Rightarrow> bool"
where
  "validateStructure a0 b0 =
     (if a0 = JUndefined \<or> a0 = JNull \<or> b0 = JUndefined \<or> b0 = JNull then True
      else if validate_pass 0 a0 b0 then validate_pass 1 b0 a0 else False)"
| "validate_pass index a b =
     (if typeof a \<noteq> T_object \<or> typeof b \<noteq> T_object then True
      else list_all (validate_prop index a) (own_props b))"
| "validate_prop index a (prop, bv) =
     (if plain_object a then
        (if getprop a prop = JUndefined then False
         else if getprop a prop \<noteq> JNull \<and> bv \<noteq> JNull then
           (if typeof (getprop a prop) \<noteq> typeof bv then False
            else if index = 0 \<and> typeof (getprop a prop) = T_object
                 then validateStructure (getprop a prop) bv
            else True)
         else True)
      else True)"
  by pat_completeness auto


lemma size_elem_le: "x \<in> set xs \<Longrightarrow> size x \<le> size_list size xs"
  by (rule size_list_estimation'[where f=size]) auto

lemma size_field_le:
  "(p, v) \<in> set ps \<Longrightarrow> size v \<le> size_list (size_prod (\<lambda>x. 0) size) ps"
  by (rule size_list_estimation'[where x="(p, v)"]) auto

lemma own_props_size: "(p, bv) \<in> set (own_props b) \<Longrightarrow> size bv \<le> size b"
proof (cases b)
  case (JArr xs)
  assume "(p, bv) \<in> set (own_props b)"
  with JArr have "bv \<in> set xs \<or> bv = JNum (int (length xs))"
    by (auto dest: set_zip_rightD)
  then show ?thesis using JArr
    by (auto dest: size_elem_le)
next
  case (JObj ps)
  assume "(p, bv) \<in> set (own_props b)"
  then show ?thesis using JObj by (auto dest: size_field_le)
qed auto

lemma getprop_size:
  "plain_object a \<Longrightarrow> getprop a p \<noteq> JUndefined \<Longrightarrow> size (getprop a p) < size a"
  by (cases a)
     (auto simp: plain_object_def split: option.splits dest!: map_of_SomeD size_field_le)

termination validateStructure
proof (relation "measure (\<lambda>x. case x of
      Inl (a0, b0) \<Rightarrow> 3 * (size a0 + size b0) + 2
    | Inr (Inl (index, a, b)) \<Rightarrow> 3 * (size a + size b) + 1
    | Inr (Inr (index, a, (p, bv))) \<Rightarrow> 3 * (size a + size bv))", goal_cases)
  case (4 index a b x)
  then show ?case by (cases x) (auto dest: own_props_size)
next
  case (5 index a p bv)
  then show ?case using getprop_size[of a p] by auto
qed auto

section \<open>The prop merger\<close>

text \<open>
  \<^verbatim>\<open>_assignProps(to, from)\<close> mutates \<^verbatim>\<open>to\<close> in place and may throw half-way, so the
  model returns the object as the source leaves it, together with the error, if any.
  \<open>from_props\<close> is \<^verbatim>\<open>Object.getOwnPropertyNames(from)\<close> on a decoded value:
  a number or a boolean owns nothing, \<^verbatim>\<open>undefined\<close> makes the engine throw, and the
  index properties of a string are outside the model.

  \<^verbatim>\<open>to[prop]\<close> is read with the inherited members: a stored field named \<^verbatim>\<open>valueOf\<close> is
  not discarded, it meets a function.  Where \<^verbatim>\<open>to[prop]\<close> is the prototype itself
  (\<^verbatim>\<open>__proto__\<close>), the source merges into \<^verbatim>\<open>Object.prototype\<close>: nothing happens for
  \<^verbatim>\<open>null\<close>, and anything else is outside the model.
\<close>

fun from_props :: "jsval \<Rightarrow> error + (pkey \<times> jsval) list" where
  "from_props (JObj ps) = Inr ps"
| "from_props (JArr xs) = Inr (own_props (JArr xs))"
| "from_props (JBool b) = Inr []"
| "from_props (JNum n) = Inr []"
| "from_props (JStr s) = Inl Unmodelled"
| "from_props (JFun f) = Inl Unmodelled"
| "from_props JUndefined = Inl JsTypeError"
| "from_props JNull = Inl JsTypeError"

function assignProps :: "jsval \<Rightarrow> jsval \<Rightarrow> jsval \<times> error option"
  and assign_each :: "jsval \<Rightarrow> (pkey \<times> jsval) list \<Rightarrow> jsval \<times> error option"
where
  "assignProps to from =
     (if from = JNull then (to, None)
      else case from_props from of
             Inl e \<Rightarrow> (to, Some e)
           | Inr fps \<Rightarrow> assign_each to fps)"
| "assign_each to [] = (to, None)"
| "assign_each to ((p, fv) # rest) =
     (if plain_object to \<and> member to p = JUndefined then assign_each to rest
      else if plain_object to \<and> member to p \<noteq> JNull \<and> fv \<noteq> JNull
              \<and> typeof (member to p) \<noteq> typeof fv
           then (to, Some PersistentStructureMismatch)
      else if is_object (member to p) then
        (if inherits to p then
           (if fv = JNull then assign_each to rest else (to, Some Unmodelled))
         else
           (case assignProps (getprop to p) fv of
              (tv, None) \<Rightarrow> assign_each (replace_prop to p tv) rest
            | (tv, Some e) \<Rightarrow> (replace_prop to p tv, Some e)))
      else
        (case setprop to p fv of
           None \<Rightarrow> (to, Some Unmodelled)
         | Some to' \<Rightarrow> assign_each to' rest))"
  by pat_completeness auto

lemma from_props_size:
  "from_props v = Inr fps \<Longrightarrow> fps = [] \<or> sum_list (map (size \<circ> snd) fps) < size v"
proof (cases v)
  case (JArr xs)
  assume "from_props v = Inr fps"
  with JArr have fps:
    "fps = zip (map Index [0..<length xs]) xs @ [(Field ''length'', JNum (int (length xs)))]"
    by simp
  have "map (size \<circ> snd) (zip (map Index [0..<length xs]) xs) = map size xs"
    by (simp flip: map_map)
  moreover have "sum_list (map size xs) \<le> size_list size xs"
    by (induction xs) auto
  ultimately show ?thesis using JArr fps by simp
next
  case (JObj ps)
  assume "from_props v = Inr fps"
  with JObj have "fps = ps" by simp
  moreover have "sum_list (map (size \<circ> snd) ps) \<le> size_list (size_prod (\<lambda>x. 0) size) ps"
    by (induction ps) auto
  ultimately show ?thesis using JObj by simp
qed auto

termination assignProps
proof (relation "inv_image (less_than <*lex*> less_than) (\<lambda>x. case x of
      Inl (t, f) \<Rightarrow> (size f, 1)
    | Inr (t, fps) \<Rightarrow> (sum_list (map (size \<circ> snd) fps), 2 * length fps))", goal_cases)
  case (2 t f fps)
  then show ?case by (auto dest: from_props_size)
qed (auto simp del: sum_list_eq_0_iff)

section \<open>What the prop merger keeps and what it takes\<close>

text \<open>
  The unconditional equations of the merger and of the validator are taken out of the
  simplifier's hands; the proofs below unfold them where they need them.
\<close>

declare assignProps.simps [simp del]

fun obj_keys_at :: "jsval \<Rightarrow> pkey list \<Rightarrow> pkey list option" where
  "obj_keys_at (JObj ps) [] = Some (map fst ps)"
| "obj_keys_at (JObj ps) (q # qs) = obj_keys_at (getprop (JObj ps) q) qs"
| "obj_keys_at v qs = None"

lemma getprop_update: "getprop (JObj (AList.update p c ps)) q = (if q = p then c else getprop (JObj ps) q)"
  by (simp add: update_conv')

lemma map_of_Some_key: "map_of ps p = Some x \<Longrightarrow> p \<in> fst ` set ps"
  by (metis domI dom_map_of_conv_image_fst)

lemma getprop_defined_key: "getprop (JObj ps) p \<noteq> JUndefined \<Longrightarrow> p \<in> fst ` set ps"
  by (auto split: option.splits dest: map_of_Some_key)

lemma keys_update_present: "p \<in> fst ` set ps \<Longrightarrow> map fst (AList.update p c ps) = map fst ps"
  by (simp add: update_keys)

lemma obj_keys_at_object: "obj_keys_at v qs = Some ks \<Longrightarrow> is_object v"
  by (cases v) (auto simp: is_object_def)

text \<open>What \<open>member\<close> answers: the own property, unless the name is only inherited.\<close>

lemma member_own: "\<not> inherits t p \<Longrightarrow> member t p = getprop t p"
  by (simp add: member_def)

lemma inherits_object: "inherits t p \<Longrightarrow> \<exists>ps. t = JObj ps \<and> p \<notin> fst ` set ps"
  by (cases t) auto

lemma inherits_absent: "inherits t p \<Longrightarrow> getprop t p = JUndefined"
proof -
  assume "inherits t p"
  then obtain ps where "t = JObj ps" and "p \<notin> fst ` set ps" using inherits_object by blast
  then show ?thesis using getprop_defined_key by blast
qed

lemma own_not_inherited: "getprop t p \<noteq> JUndefined \<Longrightarrow> \<not> inherits t p"
  using inherits_absent by blast

lemma member_leaf: "\<not> is_object (member t p) \<Longrightarrow> \<not> is_object (getprop t p)"
  by (cases "inherits t p") (simp_all add: member_own inherits_absent is_object_def)

lemma array_owns [simp]: "\<not> inherits (JArr xs) p" "member (JArr xs) p = getprop (JArr xs) p"
  by (simp_all add: member_def)

text \<open>The five ways one property of the source is handled.\<close>

definition skips :: "jsval \<Rightarrow> pkey \<Rightarrow> bool" where
  "skips t p = (plain_object t \<and> member t p = JUndefined)"

definition clashes :: "jsval \<Rightarrow> pkey \<Rightarrow> jsval \<Rightarrow> bool" where
  "clashes t p fv = (plain_object t \<and> member t p \<noteq> JNull \<and> fv \<noteq> JNull
                       \<and> typeof (member t p) \<noteq> typeof fv)"

lemma assign_each_skip:
  "skips t p \<Longrightarrow> assign_each t ((p, fv) # rest) = assign_each t rest"
  by (simp add: skips_def)

lemma assign_each_clash:
  "\<not> skips t p \<Longrightarrow> clashes t p fv \<Longrightarrow>
   assign_each t ((p, fv) # rest) = (t, Some PersistentStructureMismatch)"
  by (auto simp add: skips_def clashes_def)

lemma assign_each_proto:
  "\<not> skips t p \<Longrightarrow> \<not> clashes t p fv \<Longrightarrow> is_object (member t p) \<Longrightarrow> inherits t p \<Longrightarrow>
   assign_each t ((p, fv) # rest) =
     (if fv = JNull then assign_each t rest else (t, Some Unmodelled))"
  by (auto simp add: skips_def clashes_def)

lemma assign_each_deep:
  "\<not> skips t p \<Longrightarrow> \<not> clashes t p fv \<Longrightarrow> is_object (member t p) \<Longrightarrow> \<not> inherits t p \<Longrightarrow>
   assign_each t ((p, fv) # rest) =
     (case assignProps (getprop t p) fv of
        (tv, None) \<Rightarrow> assign_each (replace_prop t p tv) rest
      | (tv, Some e) \<Rightarrow> (replace_prop t p tv, Some e))"
  by (auto simp add: skips_def clashes_def)

lemma assign_each_leaf:
  "\<not> skips t p \<Longrightarrow> \<not> clashes t p fv \<Longrightarrow> \<not> is_object (member t p) \<Longrightarrow>
   assign_each t ((p, fv) # rest) =
     (case setprop t p fv of
        None \<Rightarrow> (t, Some Unmodelled)
      | Some t' \<Rightarrow> assign_each t' rest)"
  by (auto simp add: skips_def clashes_def)

lemma assign_each_Cons:
  "assign_each t (e # rest) =
     (case assign_each t [e] of
        (t1, None) \<Rightarrow> assign_each t1 rest
      | (t1, Some err) \<Rightarrow> (t1, Some err))"
proof -
  obtain p fv where e: "e = (p, fv)" by (cases e)
  consider (skip) "skips t p"
    | (clash) "\<not> skips t p" "clashes t p fv"
    | (proto) "\<not> skips t p" "\<not> clashes t p fv" "is_object (member t p)" "inherits t p"
    | (deep) "\<not> skips t p" "\<not> clashes t p fv" "is_object (member t p)" "\<not> inherits t p"
    | (leaf) "\<not> skips t p" "\<not> clashes t p fv" "\<not> is_object (member t p)"
    by blast
  then show ?thesis
  proof cases
    case skip
    then show ?thesis using e by (simp add: assign_each_skip del: assign_each.simps(2))
  next
    case clash
    then show ?thesis using e by (simp add: assign_each_clash del: assign_each.simps(2))
  next
    case proto
    show ?thesis using e
      by (simp add: assign_each_proto[OF proto] del: assign_each.simps(2))
  next
    case deep
    show ?thesis using e
      by (simp add: assign_each_deep[OF deep] del: assign_each.simps(2) split: prod.splits option.splits)
  next
    case leaf
    show ?thesis using e
      by (simp add: assign_each_leaf[OF leaf] del: assign_each.simps(2) split: option.splits)
  qed
qed

text \<open>One property of the source, merged into an object, leaves an object.\<close>

lemma assign_one_obj: "\<exists>ps'. fst (assign_each (JObj ps) [(p, fv)]) = JObj ps'"
proof -
  let ?t = "JObj ps"
  consider (skip) "skips ?t p"
    | (clash) "\<not> skips ?t p" "clashes ?t p fv"
    | (proto) "\<not> skips ?t p" "\<not> clashes ?t p fv" "is_object (member ?t p)" "inherits ?t p"
    | (deep) "\<not> skips ?t p" "\<not> clashes ?t p fv" "is_object (member ?t p)" "\<not> inherits ?t p"
    | (leaf) "\<not> skips ?t p" "\<not> clashes ?t p fv" "\<not> is_object (member ?t p)"
    by blast
  then show ?thesis
  proof cases
    case skip
    then show ?thesis by (simp add: assign_each_skip del: assign_each.simps(2))
  next
    case clash
    then show ?thesis by (simp add: assign_each_clash del: assign_each.simps(2))
  next
    case proto
    show ?thesis by (simp add: assign_each_proto[OF proto] del: assign_each.simps(2))
  next
    case deep
    show ?thesis
      by (simp add: assign_each_deep[OF deep] del: assign_each.simps(2) getprop.simps
          split: prod.splits option.splits)
  next
    case leaf
    show ?thesis by (simp add: assign_each_leaf[OF leaf] del: assign_each.simps(2))
  qed
qed

lemma assign_each_obj: "\<exists>ps'. fst (assign_each (JObj ps) fps) = JObj ps'"
proof (induction fps arbitrary: ps)
  case Nil
  show ?case by simp
next
  case (Cons e rest)
  obtain p fv where e: "e = (p, fv)" by (cases e)
  obtain ps1 where one: "fst (assign_each (JObj ps) [e]) = JObj ps1"
    using assign_one_obj[of ps p fv] e by auto
  obtain r where r: "assign_each (JObj ps) [e] = (JObj ps1, r)"
    using one by (cases "assign_each (JObj ps) [e]") simp
  show ?case
  proof (cases r)
    case None
    then show ?thesis using assign_each_Cons[of "JObj ps" e rest] r Cons.IH[of ps1]
      by (simp del: assign_each.simps)
  next
    case (Some err)
    then show ?thesis using assign_each_Cons[of "JObj ps" e rest] r
      by (simp del: assign_each.simps)
  qed
qed

text \<open>
  A path through nested plain objects, and a path the source does not reach.  The merger
  keeps the objects along such a path and the value at its end.
\<close>

fun untouched_by :: "jsval \<Rightarrow> pkey list \<Rightarrow> bool" where
  "untouched_by d [] = False"
| "untouched_by d (q # qs) = list_all (\<lambda>e. fst e \<noteq> q \<or> untouched_by (snd e) qs) (own_props d)"

fun plain_along :: "jsval \<Rightarrow> pkey list \<Rightarrow> bool" where
  "plain_along t [] = True"
| "plain_along (JObj ps) (q # qs) = plain_along (getprop (JObj ps) q) qs"
| "plain_along t (q # qs) = False"

lemma plain_along_keys:
  "plain_along t (q # qs) = (obj_keys_at t (butlast (q # qs)) \<noteq> None)"
proof (induction qs arbitrary: t q)
  case Nil
  then show ?case by (cases t) auto
next
  case (Cons a qs)
  show ?case
  proof (cases t)
    case (JObj ps)
    then show ?thesis using Cons[of "getprop (JObj ps) q" a] by (simp del: getprop.simps)
  qed auto
qed

lemma from_props_own: "from_props f = Inr fps \<Longrightarrow> fps = own_props f"
  by (cases f) auto

lemma plain_along_not_object: "\<not> is_object t \<Longrightarrow> plain_along t qs \<Longrightarrow> qs = []"
  by (cases t; cases qs) (auto simp: is_object_def)

lemma plain_along_update:
  "plain_along (JObj ps) qs \<Longrightarrow>
   (\<And>qs'. qs = p # qs' \<Longrightarrow> plain_along c qs') \<Longrightarrow>
   plain_along (JObj (AList.update p c ps)) qs"
  by (cases qs) (simp_all add: getprop_update del: getprop.simps)

lemma plain_along_kept:
  "plain_along t qs \<Longrightarrow> plain_along (fst (assignProps t f)) qs"
  "plain_along t qs \<Longrightarrow> plain_along (fst (assign_each t fps)) qs"
proof (induction t f and t fps arbitrary: qs and qs rule: assignProps_assign_each.induct)
  case (1 t f)
  then show ?case by (auto simp: assignProps.simps split: sum.splits)
next
  case (2 t)
  then show ?case by simp
next
  case (3 t p fv rest)
  note IH = "3.IH"[folded skips_def clashes_def]
  consider (skip) "skips t p"
    | (clash) "\<not> skips t p" "clashes t p fv"
    | (proto) "\<not> skips t p" "\<not> clashes t p fv" "is_object (member t p)" "inherits t p"
    | (deep) "\<not> skips t p" "\<not> clashes t p fv" "is_object (member t p)" "\<not> inherits t p"
    | (leaf) "\<not> skips t p" "\<not> clashes t p fv" "\<not> is_object (member t p)"
    by blast
  then show ?case
  proof cases
    case skip
    then show ?thesis using IH(1) "3.prems" by (simp add: assign_each_skip del: assign_each.simps)
  next
    case clash
    then show ?thesis using "3.prems" by (simp add: assign_each_clash del: assign_each.simps)
  next
    case proto
    then show ?thesis using IH(2)[OF proto] "3.prems"
      by (simp add: assign_each_proto[OF proto] del: assign_each.simps)
  next
    case deep
    let ?tv = "getprop t p"
    obtain tv' e where r: "assignProps ?tv fv = (tv', e)" by (cases "assignProps ?tv fv")
    have step: "plain_along (replace_prop t p tv') qs"
    proof (cases t)
      case (JObj ps)
      have "plain_along tv' qs'" if "qs = p # qs'" for qs'
      proof -
        have "plain_along ?tv qs'" using "3.prems" that JObj by (simp del: getprop.simps)
        then show ?thesis using IH(3)[OF deep, of qs'] r by simp
      qed
      then show ?thesis using JObj "3.prems" plain_along_update[of ps qs p tv'] by simp
    next
      case (JArr xs)
      then show ?thesis using "3.prems" by (cases qs; cases p) simp_all
    qed (use "3.prems" in \<open>simp_all\<close>)
    show ?thesis
    proof (cases e)
      case None
      then show ?thesis using IH(4)[OF deep r[symmetric] _ step] r
        by (simp add: assign_each_deep[OF deep] del: assign_each.simps)
    next
      case (Some err)
      then show ?thesis using r step
        by (simp add: assign_each_deep[OF deep] del: assign_each.simps)
    qed
  next
    case leaf
    show ?thesis
    proof (cases "setprop t p fv")
      case None
      then show ?thesis using "3.prems"
        by (simp add: assign_each_leaf[OF leaf] del: assign_each.simps)
    next
      case (Some t')
      have step: "plain_along t' qs"
      proof (cases t)
        case (JObj ps)
        have "plain_along fv qs'" if "qs = p # qs'" for qs'
        proof -
          have "plain_along (getprop t p) qs'" using "3.prems" that JObj by (simp del: getprop.simps)
          then have "qs' = []" using member_leaf[OF leaf(3)] plain_along_not_object by blast
          then show ?thesis by simp
        qed
        then show ?thesis using JObj Some "3.prems" plain_along_update[of ps qs p fv] by auto
      next
        case (JArr xs)
        then show ?thesis using "3.prems" Some by (cases qs) (auto split: if_splits)
      qed (use Some in \<open>simp_all\<close>)
      show ?thesis using IH(5)[OF leaf Some step] Some
        by (simp add: assign_each_leaf[OF leaf] del: assign_each.simps)
    qed
  qed
qed

lemma retained:
  "plain_along t qs \<Longrightarrow> untouched_by f qs \<Longrightarrow> subvalue (fst (assignProps t f)) qs = subvalue t qs"
  "plain_along t qs \<Longrightarrow> qs \<noteq> [] \<Longrightarrow>
     list_all (\<lambda>e. fst e \<noteq> hd qs \<or> untouched_by (snd e) (tl qs)) fps \<Longrightarrow>
     subvalue (fst (assign_each t fps)) qs = subvalue t qs"
proof (induction t f and t fps arbitrary: qs and qs rule: assignProps_assign_each.induct)
  case (1 t f)
  show ?case
  proof (cases qs)
    case Nil
    then show ?thesis using "1.prems" by simp
  next
    case (Cons q qs')
    show ?thesis
    proof (cases "f = JNull")
      case True
      then show ?thesis by (simp add: assignProps.simps)
    next
      case False
      show ?thesis
      proof (cases "from_props f")
        case (Inl e)
        then show ?thesis using False by (simp add: assignProps.simps)
      next
        case (Inr fps)
        have "list_all (\<lambda>e. fst e \<noteq> hd qs \<or> untouched_by (snd e) (tl qs)) fps"
          using "1.prems"(2) Cons from_props_own[OF Inr] by simp
        then show ?thesis using "1.IH"[OF False Inr "1.prems"(1)] Cons False Inr
          by (simp add: assignProps.simps)
      qed
    qed
  qed
next
  case (2 t)
  then show ?case by simp
next
  case (3 t p fv rest)
  from "3.prems" obtain q qs' where qs: "qs = q # qs'" by (cases qs) auto
  from "3.prems" qs obtain ps where t: "t = JObj ps" by (cases t) auto
  let ?tv = "getprop t p"
  note IH = "3.IH"[folded skips_def clashes_def]
  have rest: "list_all (\<lambda>e. fst e \<noteq> hd qs \<or> untouched_by (snd e) (tl qs)) rest"
    and here: "p \<noteq> q \<or> untouched_by fv qs'"
    using "3.prems"(3) qs by auto
  consider (skip) "skips t p"
    | (clash) "\<not> skips t p" "clashes t p fv"
    | (proto) "\<not> skips t p" "\<not> clashes t p fv" "is_object (member t p)" "inherits t p"
    | (deep) "\<not> skips t p" "\<not> clashes t p fv" "is_object (member t p)" "\<not> inherits t p"
    | (leaf) "\<not> skips t p" "\<not> clashes t p fv" "\<not> is_object (member t p)"
    by blast
  then show ?case
  proof cases
    case skip
    then show ?thesis using IH(1)[OF _ "3.prems"(1,2) rest]
      by (simp add: assign_each_skip del: assign_each.simps)
  next
    case clash
    then show ?thesis by (simp add: assign_each_clash del: assign_each.simps)
  next
    case proto
    then show ?thesis using IH(2)[OF proto _ "3.prems"(1,2) rest]
      by (simp add: assign_each_proto[OF proto] del: assign_each.simps)
  next
    case deep
    obtain tv' e where r: "assignProps ?tv fv = (tv', e)" by (cases "assignProps ?tv fv")
    let ?t1 = "replace_prop t p tv'"
    have t1: "?t1 = JObj (AList.update p tv' ps)" using t by simp
    have same: "subvalue ?t1 qs = subvalue t qs \<and> plain_along ?t1 qs"
    proof (cases "p = q")
      case True
      with here have u: "untouched_by fv qs'" by simp
      have pa: "plain_along ?tv qs'" using "3.prems"(1) qs t True by (simp del: getprop.simps)
      have "subvalue tv' qs' = subvalue ?tv qs'"
        using IH(3)[OF deep pa u] r by simp
      moreover have "plain_along tv' qs'" using plain_along_kept(1)[OF pa, of fv] r by simp
      ultimately show ?thesis using t True qs
        by (simp add: getprop_update del: getprop.simps)
    next
      case False
      then show ?thesis using "3.prems"(1) t qs
        by (simp add: getprop_update del: getprop.simps)
    qed
    show ?thesis
    proof (cases e)
      case None
      then show ?thesis using IH(4)[OF deep r[symmetric] _ _ "3.prems"(2) rest] same r
        by (simp add: assign_each_deep[OF deep] del: assign_each.simps)
    next
      case (Some err)
      then show ?thesis using r same
        by (simp add: assign_each_deep[OF deep] del: assign_each.simps)
    qed
  next
    case leaf
    have sp: "setprop t p fv = Some (JObj (AList.update p fv ps))" using t by simp
    have "p \<noteq> q"
    proof
      assume "p = q"
      with here have u: "untouched_by fv qs'" by simp
      have "plain_along ?tv qs'" using "3.prems"(1) qs t \<open>p = q\<close> by (simp del: getprop.simps)
      with member_leaf[OF leaf(3)] have "qs' = []" by (rule plain_along_not_object)
      with u show False by simp
    qed
    then have same: "subvalue (JObj (AList.update p fv ps)) qs = subvalue t qs
        \<and> plain_along (JObj (AList.update p fv ps)) qs"
      using "3.prems"(1) t qs by (simp add: getprop_update del: getprop.simps)
    show ?thesis using IH(5)[OF leaf sp _ "3.prems"(2) rest] same sp
      by (simp add: assign_each_leaf[OF leaf] del: assign_each.simps)
  qed
qed

text \<open>
  Stored data none of whose field names, at any depth, is the name of an inherited member.
  Merging such data adds no property: the own names of the target stay as they are.
\<close>

function plain_names :: "jsval \<Rightarrow> bool" where
  "plain_names (JObj ps) = list_all (\<lambda>e. \<not> inherited_name (fst e) \<and> plain_names (snd e)) ps"
| "plain_names (JArr xs) = list_all plain_names xs"
| "plain_names JUndefined = True"
| "plain_names JNull = True"
| "plain_names (JBool b) = True"
| "plain_names (JNum n) = True"
| "plain_names (JStr s) = True"
| "plain_names (JFun f) = True"
  by pat_completeness auto

termination plain_names
proof (relation "measure size", goal_cases)
  case (2 ps e)
  then show ?case using size_field_le[of "fst e" "snd e" ps] by simp
next
  case (3 xs x)
  then show ?case using size_elem_le[of x xs] by simp
qed simp

definition plain_fields :: "(pkey \<times> jsval) list \<Rightarrow> bool" where
  "plain_fields fps = list_all (\<lambda>e. \<not> inherited_name (fst e) \<and> plain_names (snd e)) fps"

lemma plain_fields_own: "plain_names f \<Longrightarrow> plain_fields (own_props f)"
proof (cases f)
  case (JArr xs)
  assume "plain_names f"
  then have "\<forall>x \<in> set xs. plain_names x" using JArr by (simp add: list_all_iff)
  moreover have "\<not> inherited_name a" if "(a, b) \<in> set (zip (map Index [0..<length xs]) xs)" for a b
    using set_zip_leftD[OF that] by auto
  ultimately show ?thesis using JArr
    by (auto simp add: plain_fields_def list_all_iff prototype_props_def dest: set_zip_rightD)
qed (simp_all add: plain_fields_def)

lemma keys_kept:
  "obj_keys_at t qs = Some ks \<Longrightarrow> plain_names f \<Longrightarrow>
   obj_keys_at (fst (assignProps t f)) qs = Some ks"
  "obj_keys_at t qs = Some ks \<Longrightarrow> plain_fields fps \<Longrightarrow>
   obj_keys_at (fst (assign_each t fps)) qs = Some ks"
proof (induction t f and t fps arbitrary: qs ks and qs ks rule: assignProps_assign_each.induct)
  case (1 t f)
  show ?case
  proof (cases "f = JNull")
    case True
    then show ?thesis using "1.prems" by (simp add: assignProps.simps)
  next
    case False
    show ?thesis
    proof (cases "from_props f")
      case (Inl e)
      then show ?thesis using False "1.prems" by (simp add: assignProps.simps)
    next
      case (Inr fps)
      have "plain_fields fps" using plain_fields_own[OF "1.prems"(2)] from_props_own[OF Inr] by simp
      then show ?thesis using "1.IH"[OF False Inr "1.prems"(1)] False Inr
        by (simp add: assignProps.simps)
    qed
  qed
next
  case (2 t)
  then show ?case by simp
next
  case (3 t p fv rest)
  from "3.prems" obtain ps where t: "t = JObj ps" by (cases t) auto
  let ?tv = "getprop t p"
  note IH = "3.IH"[folded skips_def clashes_def]
  have pf: "plain_fields rest" and pv: "plain_names fv" and np: "\<not> inherited_name p"
    using "3.prems"(2) by (simp_all add: plain_fields_def)
  have ni: "\<not> inherits t p" using np t by simp
  have mg: "member t p = ?tv" using ni by (rule member_own)
  consider (skip) "skips t p"
    | (clash) "\<not> skips t p" "clashes t p fv"
    | (deep) "\<not> skips t p" "\<not> clashes t p fv" "is_object (member t p)" "\<not> inherits t p"
    | (leaf) "\<not> skips t p" "\<not> clashes t p fv" "\<not> is_object (member t p)"
    using ni by blast
  then show ?case
  proof cases
    case skip
    then show ?thesis using IH(1)[OF _ "3.prems"(1) pf]
      by (simp add: assign_each_skip del: assign_each.simps)
  next
    case clash
    then show ?thesis using "3.prems" by (simp add: assign_each_clash del: assign_each.simps)
  next
    case deep
    obtain tv' e where r: "assignProps ?tv fv = (tv', e)" by (cases "assignProps ?tv fv")
    have key: "p \<in> fst ` set ps" using deep(3) t mg
      by (intro getprop_defined_key) (auto simp: is_object_def)
    have sub: "\<And>qs' ks'. obj_keys_at ?tv qs' = Some ks' \<Longrightarrow> obj_keys_at tv' qs' = Some ks'"
      using IH(3)[OF deep _ pv] r by simp
    have step: "obj_keys_at (replace_prop t p tv') qs = Some ks"
    proof (cases qs)
      case Nil
      then show ?thesis using "3.prems" t keys_update_present[OF key] by simp
    next
      case (Cons q qs')
      then show ?thesis using "3.prems" t sub
        by (auto simp add: getprop_update simp del: getprop.simps)
    qed
    show ?thesis
    proof (cases e)
      case None
      then show ?thesis using IH(4)[OF deep r[symmetric] _ step pf] r
        by (simp add: assign_each_deep[OF deep] del: assign_each.simps)
    next
      case (Some err)
      then show ?thesis using r step
        by (simp add: assign_each_deep[OF deep] del: assign_each.simps)
    qed
  next
    case leaf
    have pl: "plain_object t" using t by (simp add: plain_object_def)
    with leaf mg have "?tv \<noteq> JUndefined" by (simp add: skips_def)
    then have key: "p \<in> fst ` set ps" using t by (intro getprop_defined_key) simp
    have sp: "setprop t p fv = Some (JObj (AList.update p fv ps))" using t by simp
    have nokeys: "\<And>qs'. obj_keys_at ?tv qs' = None"
      using member_leaf[OF leaf(3)] obj_keys_at_object by (metis not_Some_eq)
    have step: "obj_keys_at (JObj (AList.update p fv ps)) qs = Some ks"
    proof (cases qs)
      case Nil
      then show ?thesis using "3.prems" t keys_update_present[OF key] by simp
    next
      case (Cons q qs')
      then show ?thesis using "3.prems" t nokeys
        by (auto simp add: getprop_update simp del: getprop.simps)
    qed
    show ?thesis using IH(5)[OF leaf sp step pf] sp
      by (simp add: assign_each_leaf[OF leaf] del: assign_each.simps)
  qed
qed

lemma arr_merge:
  "\<forall>t \<in> set tail. \<not> is_object t \<Longrightarrow>
   assign_each (JArr (pre @ tail))
     (zip (map Index [length pre ..< length pre + length rest]) rest
        @ [(Field ''length'', JNum (int (length pre + length rest)))])
   = (JArr (pre @ rest), None)"
proof (induction rest arbitrary: pre tail)
  case Nil
  have "\<not> is_object (getprop (JArr (pre @ tail)) (Field ''length''))"
    by (simp add: is_object_def)
  then show ?case by (simp add: plain_object_def)
next
  case (Cons f rest)
  let ?t = "JArr (pre @ tail)"
  let ?i = "length pre"
  have upt: "[?i ..< Suc (?i + length rest)] = ?i # [Suc ?i ..< Suc (?i + length rest)]"
    by (subst upt_rec) simp
  have ns: "\<not> skips ?t (Index ?i)" and nc: "\<not> clashes ?t (Index ?i) f"
    by (simp_all add: skips_def clashes_def plain_object_def)
  have no: "\<not> is_object (member ?t (Index ?i))"
    using Cons.prems by (cases tail) (auto simp: is_object_def)
  have sp: "setprop ?t (Index ?i) f = Some (JArr ((pre @ [f]) @ tl tail))"
    by (cases tail) auto
  have tls: "\<forall>t \<in> set (tl tail). \<not> is_object t"
    using Cons.prems by (cases tail) auto
  show ?case
    using Cons.IH[OF tls, of "pre @ [f]"] sp
    by (simp add: upt assign_each_leaf[OF ns nc no] del: assign_each.simps upt.simps setprop.simps)
qed

lemma assignProps_scalar_array:
  "\<forall>t \<in> set ts. \<not> is_object t \<Longrightarrow> assignProps (JArr ts) (JArr fs) = (JArr fs, None)"
  using arr_merge[of ts "[]" fs] by (simp add: assignProps.simps)

lemma top_untouched:
  "k \<notin> fst ` set fps \<Longrightarrow> getprop (fst (assign_each (JObj ps) fps)) k = getprop (JObj ps) k"
proof -
  assume k: "k \<notin> fst ` set fps"
  have "list_all (\<lambda>e. fst e \<noteq> hd [k] \<or> untouched_by (snd e) (tl [k])) fps"
    using k by (auto simp: list_all_iff)
  from retained(2)[of "JObj ps" "[k]" fps, OF _ _ this]
  show ?thesis by (simp del: getprop.simps)
qed

lemma merge_array_fields_each:
  assumes "assign_each (JObj ps) fps = (t', None)"
    and "distinct (map fst fps)"
    and "(k, JArr fs) \<in> set fps"
    and "getprop (JObj ps) k = JArr ts"
    and "\<forall>t \<in> set ts. \<not> is_object t"
  shows "getprop t' k = JArr fs"
  using assms
proof (induction fps arbitrary: ps)
  case Nil
  then show ?case by simp
next
  case (Cons e rest)
  obtain p fv where e: "e = (p, fv)" by (cases e)
  let ?t = "JObj ps"
  show ?case
  proof (cases "p = k")
    case True
    have fv: "fv = JArr fs" using Cons.prems(2,3) e True by (auto simp: rev_image_eqI)
    have k: "k \<notin> fst ` set rest" using Cons.prems(2) e True by auto
    have ni: "\<not> inherits ?t k" using Cons.prems(4) own_not_inherited[of ?t k] by simp
    have mg: "member ?t k = JArr ts" using member_own[OF ni] Cons.prems(4) by simp
    have ns: "\<not> skips ?t k" and nc: "\<not> clashes ?t k fv" and ob: "is_object (member ?t k)"
      using mg fv by (simp_all add: skips_def clashes_def is_object_def)
    have m: "assignProps (getprop ?t k) fv = (JArr fs, None)"
      using Cons.prems(4,5) fv assignProps_scalar_array by (simp del: getprop.simps)
    have "assign_each ?t ((k, fv) # rest) = assign_each (JObj (AList.update k (JArr fs) ps)) rest"
      using m by (simp add: assign_each_deep[OF ns nc ob ni] del: assign_each.simps getprop.simps)
    then have "assign_each ?t (e # rest) = assign_each (JObj (AList.update k (JArr fs) ps)) rest"
      using e True by simp
    with Cons.prems(1) have "t' = fst (assign_each (JObj (AList.update k (JArr fs) ps)) rest)"
      by simp
    then show ?thesis using top_untouched[OF k] by (simp add: getprop_update del: getprop.simps)
  next
    case False
    have inrest: "(k, JArr fs) \<in> set rest" using Cons.prems(3) e False by auto
    have d: "distinct (map fst rest)" using Cons.prems(2) by simp
    obtain t1 where one: "assign_each ?t [e] = (t1, None)" and two: "assign_each t1 rest = (t', None)"
      using Cons.prems(1) assign_each_Cons[of ?t e rest]
      by (auto split: prod.splits option.splits simp del: assign_each.simps)
    obtain ps1 where t1: "t1 = JObj ps1"
      using assign_each_obj[of ps "[e]"] one by auto
    have keep: "getprop (JObj ps1) k = JArr ts"
      using top_untouched[of k "[e]" ps] e False one t1 Cons.prems(4)
      by (simp del: getprop.simps assign_each.simps)
    show ?thesis using Cons.IH[OF _ d inrest keep Cons.prems(5)] two t1 by simp
  qed
qed

section \<open>The store, its durable backend and its effects\<close>

text \<open>
  \<^verbatim>\<open>window.localStorage\<close> maps a key to the JSON text of a value; the model keeps the decoded
  value and records every call made to the backend.  \<^verbatim>\<open>_Store\<close> owns the table
  \<^verbatim>\<open>_registeredHandlers\<close> and, beside its methods, one property per key: either the
  Proxy that \<^verbatim>\<open>register\<close> built around the handler (\<open>ViewOf\<close>), or a plain value that
  the facade assigned (\<open>Plain\<close>).
\<close>

datatype event = GetItem string | SetItem string jsval

datatype slot = ViewOf | Plain jsval

record store =
  handlers :: "(string \<times> jsval) list"
  slots :: "string \<Rightarrow> slot option"
  storage :: "string \<Rightarrow> jsval option"
  calls :: "event list"

datatype 'a outcome = Ret 'a | Throw error

type_synonym 'a action = "store \<Rightarrow> 'a outcome \<times> store"

definition ret :: "'a \<Rightarrow> 'a action" where
  "ret x st = (Ret x, st)"

definition throw :: "error \<Rightarrow> 'a action" where
  "throw e st = (Throw e, st)"

text \<open>Sequencing: an exception ends the operation and keeps what was mutated so far.\<close>

definition andThen :: "'a action \<Rightarrow> ('a \<Rightarrow> 'b action) \<Rightarrow> 'b action" where
  "andThen m f st = (case m st of (Ret x, st') \<Rightarrow> f x st' | (Throw e, st') \<Rightarrow> (Throw e, st'))"

definition cachedK :: pkey where
  "cachedK = Field ''_cached''"

definition persistedK :: pkey where
  "persistedK = Field ''_persisted''"

text \<open>The own properties of the \<^verbatim>\<open>_Store\<close> literal.\<close>

definition builtin_props :: "string list" where
  "builtin_props =
     [''_registeredHandlers'', ''_setPersistedProperty'', ''_getPersistedProperty'',
      ''_deproxy'', ''_assignProps'', ''_validateStructure'', ''_setupHandler'', ''_persist'',
      ''_generateProxyHandler'', ''register'', ''clearCache'', ''reset'',
      ''clearPersistentStorage'']"

text \<open>
  \<^verbatim>\<open>_Store[key] !== undefined\<close>: an own property of the literal, a member inherited from
  \<^verbatim>\<open>Object.prototype\<close>, or what a registration or an assignment has put under the key.
\<close>

definition store_prop_defined :: "store \<Rightarrow> string \<Rightarrow> bool" where
  "store_prop_defined st key =
     (key \<in> set builtin_props \<or> key \<in> set prototype_props \<or>
      (case slots st key of
         None \<Rightarrow> False
       | Some ViewOf \<Rightarrow> True
       | Some (Plain v) \<Rightarrow> v \<noteq> JUndefined))"

text \<open>\<^verbatim>\<open>_Store._registeredHandlers[key]\<close>, \<^verbatim>\<open>undefined\<close> when the key is not registered.\<close>

definition the_handler :: "store \<Rightarrow> string \<Rightarrow> jsval" where
  "the_handler st key = (case map_of (handlers st) key of None \<Rightarrow> JUndefined | Some h \<Rightarrow> h)"

definition put_handler :: "string \<Rightarrow> jsval \<Rightarrow> store \<Rightarrow> store" where
  "put_handler key h st = st\<lparr>handlers := AList.update key h (handlers st)\<rparr>"

definition put_slot :: "string \<Rightarrow> slot option \<Rightarrow> store \<Rightarrow> store" where
  "put_slot key s st = st\<lparr>slots := (slots st)(key := s)\<rparr>"

text \<open>
  \<^verbatim>\<open>_getPersistedProperty\<close>: one \<^verbatim>\<open>getItem\<close>; an absent entry reads \<^verbatim>\<open>null\<close>, a
  present one is decoded.  \<^verbatim>\<open>_setPersistedProperty\<close>: one \<^verbatim>\<open>setItem\<close> of the encoded
  value.
\<close>

definition getPersistedProperty :: "string \<Rightarrow> jsval action" where
  "getPersistedProperty key st =
     (Ret (case storage st key of None \<Rightarrow> JNull | Some v \<Rightarrow> v),
      st\<lparr>calls := calls st @ [GetItem key]\<rparr>)"

definition setPersistedProperty :: "string \<Rightarrow> jsval \<Rightarrow> unit action" where
  "setPersistedProperty key v st =
     (Ret (), st\<lparr>storage := (storage st)(key \<mapsto> v), calls := calls st @ [SetItem key v]\<rparr>)"

text \<open>
  \<^verbatim>\<open>_deproxy\<close> is \<^verbatim>\<open>JSON.parse(JSON.stringify(v))\<close>: a deep copy in which an object loses
  its \<^verbatim>\<open>undefined\<close> and function properties and an array holds \<^verbatim>\<open>null\<close> in their place.
\<close>

definition json_skipped :: "jsval \<Rightarrow> bool" where
  "json_skipped v = (typeof v = T_undefined \<or> typeof v = T_function)"

fun deproxy :: "jsval \<Rightarrow> jsval" where
  "deproxy (JObj ps) =
     JObj (map (\<lambda>p. (fst p, deproxy (snd p))) (filter (\<lambda>p. \<not> json_skipped (snd p)) ps))"
| "deproxy (JArr xs) = JArr (map (\<lambda>v. if json_skipped v then JNull else deproxy v) xs)"
| "deproxy v = v"

text \<open>
  The raw object a Proxy of key \<open>key\<close> wraps is found from a root, the registered handler
  or the plain value installed in the key's slot, by following a path of property names.
\<close>

datatype root = HandlerRoot | SlotRoot

definition root_value :: "store \<Rightarrow> string \<Rightarrow> root \<Rightarrow> jsval" where
  "root_value st key r =
     (case r of
        HandlerRoot \<Rightarrow> the_handler st key
      | SlotRoot \<Rightarrow> (case slots st key of Some (Plain v) \<Rightarrow> v | _ \<Rightarrow> JUndefined))"

definition put_root :: "string \<Rightarrow> root \<Rightarrow> jsval \<Rightarrow> store \<Rightarrow> store" where
  "put_root key r v st =
     (case r of
        HandlerRoot \<Rightarrow> put_handler key v st
      | SlotRoot \<Rightarrow> put_slot key (Some (Plain v)) st)"

text \<open>\<^verbatim>\<open>t[prop] = v\<close> on the object found at a path, as seen from the root of the tree.\<close>

fun set_at :: "jsval \<Rightarrow> pkey list \<Rightarrow> pkey \<Rightarrow> jsval \<Rightarrow> jsval option" where
  "set_at t [] k v = setprop t k v"
| "set_at t (p # ps) k v =
     (case set_at (getprop t p) ps k v of
        None \<Rightarrow> None
      | Some c \<Rightarrow> Some (replace_prop t p c))"

definition target_of :: "store \<Rightarrow> string \<Rightarrow> root \<Rightarrow> pkey list \<Rightarrow> jsval" where
  "target_of st key r path = subvalue (root_value st key r) path"

text \<open>\<^verbatim>\<open>target === _Store._registeredHandlers[key]\<close>, for a raw target.\<close>

definition is_handler :: "root \<Rightarrow> pkey list \<Rightarrow> bool" where
  "is_handler r path = (r = HandlerRoot \<and> path = [])"

section \<open>The interception layer\<close>

text \<open>
  The cache miss of the \<^verbatim>\<open>get\<close> trap: \<^verbatim>\<open>_getPersistedProperty(key)\<close> is called once for
  the test against \<^verbatim>\<open>undefined\<close> and, as it never answers \<^verbatim>\<open>undefined\<close>, once more for
  the value merged into the handler; then \<^verbatim>\<open>_cached\<close> is set.  A merge that throws leaves
  the handler as far as it was merged and \<^verbatim>\<open>_cached\<close> as it was.
\<close>

definition assign_into_handler :: "string \<Rightarrow> jsval \<Rightarrow> unit action" where
  "assign_into_handler key data st =
     (case assignProps (the_handler st key) data of
        (h, None) \<Rightarrow> (Ret (), put_handler key h st)
      | (h, Some e) \<Rightarrow> (Throw e, put_handler key h st))"

text \<open>A plain assignment \<^verbatim>\<open>target[prop] = v\<close> on the object at a path below a root.\<close>

definition assign_raw :: "string \<Rightarrow> root \<Rightarrow> pkey list \<Rightarrow> pkey \<Rightarrow> jsval \<Rightarrow> unit action" where
  "assign_raw key r path prop v st =
     (case set_at (root_value st key r) path prop v of
        None \<Rightarrow> (Throw Unmodelled, st)
      | Some t \<Rightarrow> (Ret (), put_root key r t st))"

definition cache_miss :: "string \<Rightarrow> unit action" where
  "cache_miss key =
     andThen (getPersistedProperty key) (\<lambda>probe.
     andThen (if probe \<noteq> JUndefined
              then andThen (getPersistedProperty key) (assign_into_handler key)
              else ret ()) (\<lambda>_.
     assign_raw key HandlerRoot [] cachedK (JBool True)))"

text \<open>
  The \<^verbatim>\<open>get\<close> trap on a raw target.  The value it returns stands for the Proxy the source
  wraps around it when it is an object.
\<close>

definition proxy_get :: "string \<Rightarrow> root \<Rightarrow> pkey list \<Rightarrow> pkey \<Rightarrow> jsval action" where
  "proxy_get key r path prop st =
     (if is_handler r path
         \<and> getprop (target_of st key r path) cachedK = JBool False
         \<and> getprop (target_of st key r path) persistedK = JBool True
      then andThen (cache_miss key) (\<lambda>_ st'. (Ret (getprop (target_of st' key r path) prop), st')) st
      else (Ret (getprop (target_of st key r path) prop), st))"

text \<open>
  The \<^verbatim>\<open>set\<close> trap on a raw target, up to and including \<^verbatim>\<open>target[property] = value\<close>.  It
  answers \<open>True\<close> where the source has returned (a reserved field of the handler) and
  \<open>False\<close> where \<^verbatim>\<open>_persist\<close> is still to run.
\<close>

definition proxy_set_core :: "string \<Rightarrow> root \<Rightarrow> pkey list \<Rightarrow> pkey \<Rightarrow> jsval \<Rightarrow> bool action" where
  "proxy_set_core key r path prop v st =
     (if \<not> validateStructure (getprop (target_of st key r path) prop) v
      then (Throw StructureMismatch, st)
      else if is_handler r path \<and> (prop = cachedK \<or> prop = persistedK)
      then andThen (assign_raw key r path prop v) (\<lambda>_. ret True) st
      else
        andThen (if is_handler r path \<and> getprop (target_of st key r path) persistedK = JBool True
                 then assign_raw key r path cachedK (JBool True)
                 else ret ()) (\<lambda>_ st1.
          if plain_object (target_of st1 key r path)
             \<and> getprop (target_of st1 key r path) prop = JUndefined
          then (Throw AssignmentInvalid, st1)
          else andThen (assign_raw key r path prop v) (\<lambda>_. ret False) st1) st)"

text \<open>
  \<^verbatim>\<open>_persist(key)\<close>.  \<^verbatim>\<open>_Store[key]\<close> is the Proxy of the handler or a plain value.  Through
  the Proxy, the flag is read by the \<^verbatim>\<open>get\<close> trap, the two \<^verbatim>\<open>delete\<close>s reach the handler
  (the Proxy has no trap for them), \<^verbatim>\<open>_deproxy\<close> reads it without a cache miss
  (\<^verbatim>\<open>_cached\<close> is gone by then), and the flags are restored by the \<^verbatim>\<open>set\<close> trap.
\<close>

definition persist :: "string \<Rightarrow> unit action" where
  "persist key st =
     (case slots st key of
        None \<Rightarrow> (Throw JsTypeError, st)
      | Some ViewOf \<Rightarrow>
          andThen (proxy_get key HandlerRoot [] persistedK) (\<lambda>flag.
            if flag = JBool True then
              andThen (\<lambda>s. (Ret (), put_handler key (delprop (the_handler s key) cachedK) s)) (\<lambda>_.
              andThen (\<lambda>s. (Ret (), put_handler key (delprop (the_handler s key) persistedK) s)) (\<lambda>_.
              andThen (\<lambda>s. setPersistedProperty key (deproxy (the_handler s key)) s) (\<lambda>_.
              andThen (proxy_set_core key HandlerRoot [] cachedK (JBool True)) (\<lambda>_.
              andThen (proxy_set_core key HandlerRoot [] persistedK (JBool True)) (\<lambda>_.
              ret ())))))
            else ret ()) st
      | Some (Plain v) \<Rightarrow>
          if v = JUndefined \<or> v = JNull then (Throw JsTypeError, st)
          else if getprop v persistedK = JBool True then
            andThen (\<lambda>s. (Ret (), put_root key SlotRoot (delprop (root_value s key SlotRoot) cachedK) s)) (\<lambda>_.
            andThen (\<lambda>s. (Ret (), put_root key SlotRoot (delprop (root_value s key SlotRoot) persistedK) s)) (\<lambda>_.
            andThen (\<lambda>s. setPersistedProperty key (deproxy (root_value s key SlotRoot)) s) (\<lambda>_.
            andThen (assign_raw key SlotRoot [] cachedK (JBool True)) (\<lambda>_.
            assign_raw key SlotRoot [] persistedK (JBool True))))) st
          else (Ret (), st))"

definition proxy_set :: "string \<Rightarrow> root \<Rightarrow> pkey list \<Rightarrow> pkey \<Rightarrow> jsval \<Rightarrow> unit action" where
  "proxy_set key r path prop v =
     andThen (proxy_set_core key r path prop v) (\<lambda>returned.
       if returned then ret () else persist key)"

text \<open>
  What the application holds.  \<^verbatim>\<open>Store[key]\<close> wraps \<^verbatim>\<open>_Store[key]\<close> in a new Proxy: over
  a plain value the traps see the raw object (\<open>SlotRoot\<close>); over the Proxy of the handler
  they see a Proxy, so \<^verbatim>\<open>target === handler\<close> fails in them and every
  \<^verbatim>\<open>target[property]\<close> is itself a trap call on the raw object (\<open>HandlerRoot\<close>).
\<close>

definition view_get :: "string \<Rightarrow> root \<Rightarrow> pkey list \<Rightarrow> pkey \<Rightarrow> jsval action" where
  "view_get key r path prop =
     (case r of
        SlotRoot \<Rightarrow> proxy_get key SlotRoot path prop
      | HandlerRoot \<Rightarrow>
          andThen (proxy_get key HandlerRoot path prop) (\<lambda>probe.
            if typeof probe = T_object
            then andThen (proxy_get key HandlerRoot path prop) (\<lambda>_.
                   proxy_get key HandlerRoot path prop)
            else proxy_get key HandlerRoot path prop))"

definition view_set :: "string \<Rightarrow> root \<Rightarrow> pkey list \<Rightarrow> pkey \<Rightarrow> jsval \<Rightarrow> unit action" where
  "view_set key r path prop v =
     (case r of
        SlotRoot \<Rightarrow> proxy_set key SlotRoot path prop v
      | HandlerRoot \<Rightarrow>
          andThen (proxy_get key HandlerRoot path prop) (\<lambda>old.
            if \<not> validateStructure old v then throw StructureMismatch
            else
              andThen (proxy_get key HandlerRoot path prop) (\<lambda>cur st.
                if plain_object (target_of st key HandlerRoot path) \<and> cur = JUndefined
                then (Throw AssignmentInvalid, st)
                else andThen (proxy_set key HandlerRoot path prop v) (\<lambda>_. persist key) st)))"

section \<open>The registry and the facade\<close>

text \<open>
  \<^verbatim>\<open>_setupHandler\<close> mutates the handler it is given; the model returns it as the call
  leaves it, with the error, if any.
\<close>

definition setupHandler :: "jsval \<Rightarrow> jsval \<times> error option" where
  "setupHandler h =
     (if typeof h \<noteq> T_object then (h, Some HandlerNotObject)
      else if h = JNull then (h, Some JsTypeError)
      else if getprop h cachedK \<noteq> JUndefined then (h, Some ReservedCached)
      else
        (case setprop h cachedK (JBool False) of
           None \<Rightarrow> (h, Some Unmodelled)
         | Some h1 \<Rightarrow>
             if getprop h1 persistedK = JUndefined then
               (case setprop h1 persistedK (JBool False) of
                  None \<Rightarrow> (h1, Some Unmodelled)
                | Some h2 \<Rightarrow> (h2, None))
             else if getprop h1 persistedK \<noteq> JBool True \<and> getprop h1 persistedK \<noteq> JBool False
             then (h1, Some ReservedPersisted)
             else (h1, None)))"

text \<open>
  \<^verbatim>\<open>register(key, handler)\<close>.  The third component is the caller's handler object after the
  call: \<^verbatim>\<open>clearCache\<close> passes the registered object itself.
\<close>

definition register_object :: "string \<Rightarrow> jsval \<Rightarrow> store \<Rightarrow> unit outcome \<times> store \<times> jsval" where
  "register_object key h st =
     (if store_prop_defined st key then (Throw (AlreadyDefined key), st, h)
      else
        (case setupHandler h of
           (h', Some e) \<Rightarrow> (Throw e, st, h')
         | (h', None) \<Rightarrow> (Ret (), put_slot key (Some ViewOf) (put_handler key h' st), h')))"

definition register :: "string \<Rightarrow> jsval \<Rightarrow> unit action" where
  "register key h st = (case register_object key h st of (res, st', _) \<Rightarrow> (res, st'))"

text \<open>
  \<^verbatim>\<open>Store[key]\<close>, the \<^verbatim>\<open>get\<close> trap of the facade: a registered key answers a new Proxy of
  \<^verbatim>\<open>_Store[key]\<close>, which the engine refuses for a non-object; any other name answers the
  plain property.
\<close>

datatype facade_result = ProxyView root | PlainResult jsval

definition facade_get :: "string \<Rightarrow> facade_result action" where
  "facade_get key st =
     (if the_handler st key = JUndefined then
        (Ret (PlainResult (case slots st key of
                             Some (Plain v) \<Rightarrow> v
                           | Some ViewOf \<Rightarrow> JUndefined
                           | None \<Rightarrow> if key \<in> set builtin_props then JFun 0 else JUndefined)), st)
      else
        (case slots st key of
           None \<Rightarrow> (Throw JsTypeError, st)
         | Some ViewOf \<Rightarrow> (Ret (ProxyView HandlerRoot), st)
         | Some (Plain v) \<Rightarrow>
             if is_object v \<or> typeof v = T_function then (Ret (ProxyView SlotRoot), st)
             else (Throw JsTypeError, st)))"

text \<open>
  Reading \<^verbatim>\<open>Store.key.p1. ... .pn\<close> and writing \<^verbatim>\<open>Store.key.p1. ... .pn = v\<close>: the facade,
  then one \<^verbatim>\<open>get\<close> per property, and for a write the \<^verbatim>\<open>set\<close> trap on the last one.  A
  property of \<^verbatim>\<open>undefined\<close> or \<^verbatim>\<open>null\<close> is a TypeError; a property of another
  primitive is outside the model.
\<close>

definition through :: "jsval \<Rightarrow> unit action" where
  "through v =
     (if is_object v then ret ()
      else if v = JUndefined \<or> v = JNull then throw JsTypeError
      else throw Unmodelled)"

fun read_from :: "string \<Rightarrow> root \<Rightarrow> pkey list \<Rightarrow> pkey list \<Rightarrow> jsval action" where
  "read_from key r path [] = (\<lambda>st. (Ret (target_of st key r path), st))"
| "read_from key r path [p] = view_get key r path p"
| "read_from key r path (p # q # ps) =
     andThen (view_get key r path p) (\<lambda>v.
     andThen (through v) (\<lambda>_.
     read_from key r (path @ [p]) (q # ps)))"

fun write_from :: "string \<Rightarrow> root \<Rightarrow> pkey list \<Rightarrow> pkey list \<Rightarrow> jsval \<Rightarrow> unit action" where
  "write_from key r path [] v = throw Unmodelled"
    \<comment> \<open>not an assignment to a property of the view; see \<open>store_assign\<close>\<close>
| "write_from key r path [p] v = view_set key r path p v"
| "write_from key r path (p # q # ps) v =
     andThen (view_get key r path p) (\<lambda>x.
     andThen (through x) (\<lambda>_.
     write_from key r (path @ [p]) (q # ps) v))"

definition store_read :: "string \<Rightarrow> pkey list \<Rightarrow> jsval action" where
  "store_read key ps =
     andThen (facade_get key) (\<lambda>res.
       case res of
         ProxyView r \<Rightarrow> read_from key r [] ps
       | PlainResult v \<Rightarrow> if ps = [] then ret v else andThen (through v) (\<lambda>_. throw Unmodelled))"

definition store_write :: "string \<Rightarrow> pkey list \<Rightarrow> jsval \<Rightarrow> unit action" where
  "store_write key ps v =
     andThen (facade_get key) (\<lambda>res.
       case res of
         ProxyView r \<Rightarrow> write_from key r [] ps v
       | PlainResult x \<Rightarrow> andThen (through x) (\<lambda>_. throw Unmodelled))"

text \<open>
  The \<^verbatim>\<open>set\<close> trap of the facade, \<^verbatim>\<open>Store.key = value\<close>.  \<open>truthy\<close> is the test of
  \<^verbatim>\<open>if (persisted)\<close>; \<open>loose_eq\<close> is \<^verbatim>\<open>==\<close> where it needs no coercion of a string or an
  object.  The file runs in sloppy mode (it assigns the undeclared \<^verbatim>\<open>persisted\<close>), where
  setting a property of a primitive does nothing.
\<close>

fun truthy :: "jsval \<Rightarrow> bool" where
  "truthy JUndefined = False"
| "truthy JNull = False"
| "truthy (JBool b) = b"
| "truthy (JNum n) = (n \<noteq> 0)"
| "truthy (JStr s) = (s \<noteq> [])"
| "truthy v = True"

fun loose_eq :: "jsval \<Rightarrow> jsval \<Rightarrow> bool option" where
  "loose_eq JUndefined b = Some (b = JUndefined \<or> b = JNull)"
| "loose_eq JNull b = Some (b = JUndefined \<or> b = JNull)"
| "loose_eq (JBool x) (JBool y) = Some (x = y)"
| "loose_eq (JBool x) (JNum n) = Some ((if x then 1 else 0) = n)"
| "loose_eq (JNum n) (JBool x) = Some (n = (if x then 1 else 0))"
| "loose_eq (JNum n) (JNum m) = Some (n = m)"
| "loose_eq (JStr s) (JStr t) = Some (s = t)"
| "loose_eq a JUndefined = Some False"
| "loose_eq a JNull = Some False"
| "loose_eq a b = None"

definition force_flags :: "jsval \<Rightarrow> jsval option" where
  "force_flags v =
     (case v of
        JObj ps \<Rightarrow> Some (JObj (AList.update cachedK (JBool True)
                                 (AList.update persistedK (JBool True) ps)))
      | JBool b \<Rightarrow> Some v
      | JNum n \<Rightarrow> Some v
      | JStr s \<Rightarrow> Some v
      | _ \<Rightarrow> None)"

definition store_assign :: "string \<Rightarrow> jsval \<Rightarrow> unit action" where
  "store_assign key v st =
     (if the_handler st key = JUndefined then
        (if key \<in> set builtin_props then (Throw Unmodelled, st)
         else (Ret (), put_slot key (Some (Plain v)) st))
      else
        andThen
          (case slots st key of
             None \<Rightarrow> throw JsTypeError
           | Some ViewOf \<Rightarrow> proxy_get key HandlerRoot [] persistedK
           | Some (Plain x) \<Rightarrow>
               if x = JUndefined \<or> x = JNull then throw JsTypeError
               else ret (getprop x persistedK))
          (\<lambda>persisted.
             if v = JUndefined \<or> v = JNull then throw JsTypeError
             else if getprop v persistedK \<noteq> JUndefined \<and> loose_eq (getprop v persistedK) persisted = None
             then throw Unmodelled
             else if getprop v persistedK \<noteq> JUndefined
                     \<and> loose_eq (getprop v persistedK) persisted = Some False
             then throw (ReassignPersisted key)
             else if truthy persisted then
               (case force_flags v of
                  None \<Rightarrow> throw Unmodelled
                | Some v' \<Rightarrow>
                    andThen (\<lambda>s. (Ret (), put_slot key (Some (Plain v')) s)) (\<lambda>_. persist key))
             else (\<lambda>s. (Ret (), put_slot key (Some (Plain v)) s))) st)"


fun for_each :: "(string \<Rightarrow> unit action) \<Rightarrow> string list \<Rightarrow> unit action" where
  "for_each f [] = ret ()"
| "for_each f (k # ks) = andThen (f k) (\<lambda>_. for_each f ks)"


definition reset_key :: "string \<Rightarrow> unit action" where
  "reset_key key st =
     (Ret (), (put_slot key None st)\<lparr>handlers := AList.delete key (handlers st)\<rparr>)"

definition reset :: "unit action" where
  "reset st = for_each reset_key (map fst (handlers st)) st"


definition empty_store :: "(string \<Rightarrow> jsval option) \<Rightarrow> store" where
  "empty_store disk = \<lparr>handlers = [], slots = (\<lambda>k. None), storage = disk, calls = []\<rparr>"

section \<open>Registration against the names of the store object\<close>



section \<open>Arrays under the prop merger\<close>

text \<open>
  Claim C7, as amended.  The merger recurses into every field of the target that holds an
  object, and an array is one (\<^verbatim>\<open>typeof [] === 'object'\<close>): a shared array field is merged
  element by element and then cut to the source's length.  Where the target array holds no
  object element, a successful merge leaves the source array as a whole at that field.
\<close>

theorem merge_array_field:
  assumes "assignProps (JObj ps) (JObj fps) = (t', None)"
    and "distinct (map fst fps)"
    and "(k, JArr fs) \<in> set fps"
    and "getprop (JObj ps) k = JArr ts"
    and "\<forall>t \<in> set ts. \<not> is_object t"
  shows "getprop t' k = JArr fs"
proof -
  have "assign_each (JObj ps) fps = (t', None)"
    using assms(1) by (simp add: assignProps.simps)
  then show ?thesis
    by (rule merge_array_fields_each[OF _ assms(2-5)])
qed

theorem merge_array_field_witness:
  "assignProps (JObj [(Field ''data'', JArr [JNum 9, JNum 9, JNum 9])])
               (JObj [(Field ''data'', JArr [JNum 1])])
     = (JObj [(Field ''data'', JArr [JNum 1])], None)
   \<and> getprop (JObj [(Field ''data'', JArr [JNum 1])]) (Field ''data'') = JArr [JNum 1]"
proof -
  have run: "assignProps (JObj [(Field ''data'', JArr [JNum 9, JNum 9, JNum 9])])
               (JObj [(Field ''data'', JArr [JNum 1])])
             = (JObj [(Field ''data'', JArr [JNum 1])], None)"
    by code_simp
  have "getprop (JObj [(Field ''data'', JArr [JNum 1])]) (Field ''data'') = JArr [JNum 1]"
    by (rule merge_array_field[OF run, where ts = "[JNum 9, JNum 9, JNum 9]"])
       (simp_all add: is_object_def)
  with run show ?thesis by simp
qed

text \<open>
  The claim as stated fails on an array of objects: the element of the target is merged with
  the element of the source and keeps its own field \<^verbatim>\<open>b\<close>, so the field does not end up
  equal to the source array.
\<close>

theorem merge_array_of_objects_counterexample:
  "assignProps
     (JObj [(Field ''data'', JArr [JObj [(Field ''a'', JNum 1), (Field ''b'', JNum 2)]])])
     (JObj [(Field ''data'', JArr [JObj [(Field ''a'', JNum 5)]])])
   = (JObj [(Field ''data'', JArr [JObj [(Field ''a'', JNum 5), (Field ''b'', JNum 2)]])], None)
   \<and> JArr [JObj [(Field ''a'', JNum 5), (Field ''b'', JNum 2)]]
       \<noteq> JArr [JObj [(Field ''a'', JNum 5)]]"
  by code_simp

section \<open>Accesses through the view, step by step\<close>

text \<open>
  A key whose handler has \<^verbatim>\<open>_cached === false\<close> and \<^verbatim>\<open>_persisted === true\<close> awaits its
  load: the next \<^verbatim>\<open>get\<close> trap on the handler takes the cache miss.  In every other state
  the traps read the handler as it is.
\<close>

lemma the_handler_put_handler [simp]:
  "the_handler (put_handler key h st) k = (if k = key then h else the_handler st k)"
  by (simp add: the_handler_def put_handler_def update_conv')

lemma put_handler_fields [simp]:
  "slots (put_handler key h st) = slots st"
  "storage (put_handler key h st) = storage st"
  "calls (put_handler key h st) = calls st"
  by (simp_all add: put_handler_def)

lemma put_slot_fields [simp]:
  "slots (put_slot key s st) = (slots st)(key := s)"
  "storage (put_slot key s st) = storage st"
  "calls (put_slot key s st) = calls st"
  "handlers (put_slot key s st) = handlers st"
  "the_handler (put_slot key s st) k = the_handler st k"
  by (simp_all add: put_slot_def the_handler_def)

lemma the_handler_calls [simp]: "the_handler (st\<lparr>calls := c\<rparr>) k = the_handler st k"
  by (simp add: the_handler_def)

lemma the_handler_storage [simp]: "the_handler (st\<lparr>storage := d\<rparr>) k = the_handler st k"
  by (simp add: the_handler_def)

lemma put_handler_calls: "put_handler key h (st\<lparr>calls := c\<rparr>) = (put_handler key h st)\<lparr>calls := c\<rparr>"
  by (simp add: put_handler_def)

lemma root_value_handler [simp]: "root_value st key HandlerRoot = the_handler st key"
  by (simp add: root_value_def)

lemma target_of_handler [simp]: "target_of st key HandlerRoot path = subvalue (the_handler st key) path"
  by (simp add: target_of_def)

definition awaiting_load :: "store \<Rightarrow> string \<Rightarrow> bool" where
  "awaiting_load st key =
     (getprop (the_handler st key) cachedK = JBool False
      \<and> getprop (the_handler st key) persistedK = JBool True)"

lemma proxy_get_pure:
  "\<not> (is_handler r path \<and> awaiting_load st key) \<Longrightarrow>
   proxy_get key r path prop st = (Ret (getprop (target_of st key r path) prop), st)"
  by (auto simp: proxy_get_def awaiting_load_def is_handler_def)

lemma view_get_pure:
  "\<not> (r = HandlerRoot \<and> awaiting_load st key) \<Longrightarrow>
   view_get key r path prop st = (Ret (getprop (target_of st key r path) prop), st)"
  by (cases r) (auto simp: view_get_def andThen_def proxy_get_pure is_handler_def)

lemma read_from_pure:
  "\<not> (r = HandlerRoot \<and> awaiting_load st key) \<Longrightarrow> snd (read_from key r path ps st) = st"
proof (induction key r path ps arbitrary: st rule: read_from.induct)
  case (3 key r path p q ps)
  then show ?case
    by (auto simp: andThen_def view_get_pure through_def ret_def throw_def)
qed (simp_all add: view_get_pure)

lemma store_read_pure:
  "\<not> (slots st key = Some ViewOf \<and> awaiting_load st key) \<Longrightarrow> snd (store_read key ps st) = st"
  by (auto simp: store_read_def andThen_def facade_get_def read_from_pure ret_def throw_def through_def
      split: option.splits slot.splits)

definition strip_flags :: "jsval \<Rightarrow> jsval" where
  "strip_flags h = delprop (delprop h cachedK) persistedK"

definition restore_flags :: "jsval \<Rightarrow> jsval" where
  "restore_flags h =
     (case h of JObj ps \<Rightarrow> JObj (AList.update persistedK (JBool True)
                                  (AList.update cachedK (JBool True) ps))
      | _ \<Rightarrow> h)"

definition persisted_state :: "string \<Rightarrow> jsval \<Rightarrow> store \<Rightarrow> store" where
  "persisted_state key h st =
     st\<lparr>storage := (storage st)(key \<mapsto> deproxy (strip_flags h)),
        calls := calls st @ [SetItem key (deproxy (strip_flags h))]\<rparr>"

lemma flag_is_obj: "getprop h persistedK = JBool True \<Longrightarrow> \<exists>ps. h = JObj ps"
  by (cases h) (auto simp: persistedK_def split: if_splits pkey.splits elim: getprop.elims)

lemma keys_distinct [simp]: "cachedK \<noteq> persistedK" "persistedK \<noteq> cachedK"
  by (simp_all add: cachedK_def persistedK_def)

lemma validate_non_object:
  "\<not> is_object a \<or> \<not> is_object b \<Longrightarrow> validateStructure a b"
  by (auto simp: is_object_def)

lemma validate_bool [simp]: "validateStructure a (JBool b)"
  by (rule validate_non_object) (simp add: is_object_def)

lemma persist_view_quiet:
  assumes "slots st key = Some ViewOf" and "\<not> awaiting_load st key"
  shows "persist key st =
           (if getprop (the_handler st key) persistedK = JBool True
            then (Ret (), put_handler key (restore_flags (strip_flags (the_handler st key)))
                            (persisted_state key (the_handler st key) st))
            else (Ret (), st))"
proof (cases "getprop (the_handler st key) persistedK = JBool True")
  case False
  then show ?thesis using assms
    by (simp add: persist_def andThen_def proxy_get_pure ret_def)
next
  case True
  then obtain ps where h: "the_handler st key = JObj ps" using flag_is_obj by blast
  show ?thesis using assms True h
    apply (simp add: persist_def andThen_def proxy_get_pure ret_def is_handler_def)
    apply (simp add: setPersistedProperty_def proxy_set_core_def is_handler_def andThen_def
        assign_raw_def put_root_def ret_def strip_flags_def restore_flags_def persisted_state_def
        put_handler_def the_handler_def update_conv' del: getprop.simps validateStructure.simps)
    done
qed

definition mark_cached :: "jsval \<Rightarrow> jsval" where
  "mark_cached h = (case h of JObj ps \<Rightarrow> JObj (AList.update cachedK (JBool True) ps) | _ \<Rightarrow> h)"

lemma put_handler_twice [simp]:
  "put_handler key h2 (put_handler key h1 st) = put_handler key h2 st"
  by (simp add: put_handler_def)

lemma view_set_quiet:
  assumes "\<not> awaiting_load st key"
  shows "view_set key HandlerRoot path prop v st =
     (let h = the_handler st key; t = subvalue h path in
      if \<not> validateStructure (getprop t prop) v then (Throw StructureMismatch, st)
      else if plain_object t \<and> getprop t prop = JUndefined then (Throw AssignmentInvalid, st)
      else if path = [] \<and> (prop = cachedK \<or> prop = persistedK) then
        (case setprop h prop v of
           None \<Rightarrow> (Throw Unmodelled, st)
         | Some h1 \<Rightarrow> persist key (put_handler key h1 st))
      else if path = [] \<and> getprop h persistedK = JBool True then
        (case set_at (mark_cached h) path prop v of
           None \<Rightarrow> (Throw Unmodelled, put_handler key (mark_cached h) st)
         | Some h2 \<Rightarrow> andThen (persist key) (\<lambda>_. persist key) (put_handler key h2 st))
      else
        (case set_at h path prop v of
           None \<Rightarrow> (Throw Unmodelled, st)
         | Some h2 \<Rightarrow> andThen (persist key) (\<lambda>_. persist key) (put_handler key h2 st)))"
proof -
  let ?h = "the_handler st key"
  let ?t = "subvalue ?h path"
  have get: "\<And>q pa. proxy_get key HandlerRoot pa q st
                   = (Ret (getprop (subvalue ?h pa) q), st)"
    using assms by (simp add: proxy_get_pure)
  show ?thesis
  proof (cases "\<not> validateStructure (getprop ?t prop) v")
    case True
    then show ?thesis by (simp add: view_set_def andThen_def get throw_def Let_def)
  next
    case valid: False
    show ?thesis
    proof (cases "plain_object ?t \<and> getprop ?t prop = JUndefined")
      case True
      then show ?thesis using valid by (simp add: view_set_def andThen_def get throw_def Let_def)
    next
      case known: False
      show ?thesis
      proof (cases "path = [] \<and> (prop = cachedK \<or> prop = persistedK)")
        case True
        then show ?thesis using valid known
          by (auto simp add: view_set_def andThen_def get Let_def proxy_set_def proxy_set_core_def
              is_handler_def assign_raw_def put_root_def ret_def
              simp del: getprop.simps validateStructure.simps setprop.simps
              split: option.splits)
      next
        case plain: False
        show ?thesis
        proof (cases "path = [] \<and> getprop ?h persistedK = JBool True")
          case True
          then obtain ps where h: "?h = JObj ps" using flag_is_obj by blast
          have mc: "mark_cached ?h = JObj (AList.update cachedK (JBool True) ps)"
            using h by (simp add: mark_cached_def)
          have same: "getprop (JObj (AList.update cachedK (JBool True) ps)) prop = getprop ?h prop"
            using plain True h by (simp add: update_conv')
          show ?thesis using valid known plain True h mc same
            by (auto simp add: view_set_def andThen_def get Let_def proxy_set_def proxy_set_core_def
              is_handler_def assign_raw_def put_root_def ret_def plain_object_def
              simp del: getprop.simps validateStructure.simps
              split: option.splits)
        next
          case False
          then show ?thesis using valid known plain
            by (auto simp add: view_set_def andThen_def get Let_def proxy_set_def proxy_set_core_def
              is_handler_def assign_raw_def put_root_def ret_def target_of_def
              simp del: getprop.simps validateStructure.simps setprop.simps
              split: option.splits)
        qed
      qed
    qed
  qed
qed

definition stored_value :: "store \<Rightarrow> string \<Rightarrow> jsval" where
  "stored_value st key = (case storage st key of None \<Rightarrow> JNull | Some v \<Rightarrow> v)"

definition loading :: "string \<Rightarrow> store \<Rightarrow> store" where
  "loading key st = st\<lparr>calls := calls st @ [GetItem key, GetItem key]\<rparr>"

lemma put_handler_inward [simp]:
  "put_handler key h (st\<lparr>calls := c\<rparr>) = (put_handler key h st)\<lparr>calls := c\<rparr>"
  "put_handler key h (st\<lparr>storage := d\<rparr>) = (put_handler key h st)\<lparr>storage := d\<rparr>"
  by (simp_all add: put_handler_def)

lemma cache_miss_eq:
  assumes "stored_value st key \<noteq> JUndefined"
  shows "cache_miss key st =
     (case assignProps (the_handler st key) (stored_value st key) of
        (h', Some e) \<Rightarrow> (Throw e, put_handler key h' (loading key st))
      | (h', None) \<Rightarrow>
          (case setprop h' cachedK (JBool True) of
             None \<Rightarrow> (Throw Unmodelled, put_handler key h' (loading key st))
           | Some h'' \<Rightarrow> (Ret (), put_handler key h'' (loading key st))))"
  using assms
  by (auto simp add: cache_miss_def andThen_def getPersistedProperty_def stored_value_def
      assign_into_handler_def assign_raw_def put_root_def loading_def ret_def
      split: prod.splits option.splits)

lemma loading_fields [simp]:
  "calls (loading key st) = calls st @ [GetItem key, GetItem key]"
  "storage (loading key st) = storage st"
  "slots (loading key st) = slots st"
  "the_handler (loading key st) k = the_handler st k"
  by (simp_all add: loading_def)

lemma setprop_cached:
  "setprop h cachedK (JBool True) = Some h' \<Longrightarrow> h' = mark_cached h \<and> getprop h' cachedK = JBool True"
  by (cases h) (auto simp: update_conv' cachedK_def mark_cached_def split: if_splits)

lemma cache_miss_ret:
  assumes "stored_value st key \<noteq> JUndefined" and "cache_miss key st = (Ret u, s)"
  shows "\<not> awaiting_load s key"
    and "calls s = calls st @ [GetItem key, GetItem key]"
    and "storage s = storage st"
    and "slots s = slots st"
    and "the_handler s key = mark_cached (fst (assignProps (the_handler st key) (stored_value st key)))"
  using assms(2) unfolding cache_miss_eq[OF assms(1)]
  by (auto split: prod.splits option.splits simp: awaiting_load_def dest!: setprop_cached)

lemma cache_miss_throw:
  assumes "stored_value st key \<noteq> JUndefined" and "cache_miss key st = (Throw e, s)"
  shows "calls s = calls st @ [GetItem key, GetItem key]"
    and "storage s = storage st"
    and "slots s = slots st"
  using assms(2) unfolding cache_miss_eq[OF assms(1)]
  by (auto split: prod.splits option.splits)

text \<open>In a state that awaits its load, every access begins with the load.\<close>

lemma proxy_get_load_first:
  assumes "awaiting_load st key" and "stored_value st key \<noteq> JUndefined"
  shows "proxy_get key HandlerRoot [] p st = andThen (cache_miss key) (\<lambda>_. proxy_get key HandlerRoot [] p) st"
proof (cases "cache_miss key st")
  case (Pair res s)
  show ?thesis
  proof (cases res)
    case (Ret u)
    with Pair have "\<not> awaiting_load s key" using cache_miss_ret(1)[OF assms(2)] by blast
    then show ?thesis using assms(1) Pair Ret
      by (auto simp add: proxy_get_def andThen_def awaiting_load_def is_handler_def)
  next
    case (Throw e)
    then show ?thesis using assms(1) Pair
      by (simp add: proxy_get_def andThen_def awaiting_load_def is_handler_def)
  qed
qed

lemma andThen_assoc: "andThen (andThen m f) g = andThen m (\<lambda>x. andThen (f x) g)"
  by (auto simp: andThen_def fun_eq_iff split: prod.splits outcome.splits)

lemma view_get_load_first:
  assumes "awaiting_load st key" and "stored_value st key \<noteq> JUndefined"
  shows "view_get key HandlerRoot [] p st = andThen (cache_miss key) (\<lambda>_. view_get key HandlerRoot [] p) st"
proof (cases "cache_miss key st")
  case (Pair res s)
  show ?thesis
  proof (cases res)
    case (Ret u)
    with Pair have q: "\<not> awaiting_load s key" using cache_miss_ret(1)[OF assms(2)] by blast
    show ?thesis using Pair Ret q
      by (simp add: view_get_def andThen_def proxy_get_load_first[OF assms] proxy_get_pure)
  next
    case (Throw e)
    then show ?thesis using Pair
      by (simp add: view_get_def andThen_def proxy_get_load_first[OF assms])
  qed
qed

lemma view_set_load_first:
  assumes "awaiting_load st key" and "stored_value st key \<noteq> JUndefined"
  shows "view_set key HandlerRoot [] p v st = andThen (cache_miss key) (\<lambda>_. view_set key HandlerRoot [] p v) st"
proof (cases "cache_miss key st")
  case (Pair res s)
  show ?thesis
  proof (cases res)
    case (Ret u)
    with Pair have q: "\<not> awaiting_load s key" using cache_miss_ret(1)[OF assms(2)] by blast
    show ?thesis using Pair Ret q
      by (simp add: view_set_def andThen_def proxy_get_load_first[OF assms] proxy_get_pure)
  next
    case (Throw e)
    then show ?thesis using Pair
      by (simp add: view_set_def andThen_def proxy_get_load_first[OF assms])
  qed
qed

lemma read_from_load_first:
  assumes "awaiting_load st key" and "stored_value st key \<noteq> JUndefined" and "ps \<noteq> []"
  shows "read_from key HandlerRoot [] ps st
         = andThen (cache_miss key) (\<lambda>_. read_from key HandlerRoot [] ps) st"
proof (cases ps)
  case Nil
  then show ?thesis using assms(3) by simp
next
  case (Cons p qs)
  show ?thesis
  proof (cases qs)
    case Nil
    then show ?thesis using Cons view_get_load_first[OF assms(1,2)] by simp
  next
    case (Cons q qs')
    then show ?thesis using \<open>ps = p # qs\<close> view_get_load_first[OF assms(1,2), of p]
      by (simp add: andThen_def split: prod.splits outcome.splits)
  qed
qed

lemma awaiting_registered: "awaiting_load st key \<Longrightarrow> the_handler st key \<noteq> JUndefined"
  by (auto simp: awaiting_load_def)

lemma facade_get_view:
  "slots st key = Some ViewOf \<Longrightarrow> the_handler st key \<noteq> JUndefined \<Longrightarrow>
   facade_get key st = (Ret (ProxyView HandlerRoot), st)"
  by (simp add: facade_get_def)

lemma store_read_view:
  "slots st key = Some ViewOf \<Longrightarrow> the_handler st key \<noteq> JUndefined \<Longrightarrow>
   store_read key ps st = read_from key HandlerRoot [] ps st"
  by (simp add: store_read_def andThen_def facade_get_view)

lemma stored_value_defined: "storage st key \<noteq> Some JUndefined \<Longrightarrow> stored_value st key \<noteq> JUndefined"
  by (auto simp: stored_value_def split: option.splits)

lemma awaiting_storage [simp]: "awaiting_load (st\<lparr>storage := d\<rparr>) key = awaiting_load st key"
  by (simp add: awaiting_load_def)

lemma first_read:
  assumes "slots st key = Some ViewOf" and "awaiting_load st key"
    and "storage st key \<noteq> Some JUndefined" and "ps \<noteq> []"
  shows "calls (snd (store_read key ps st)) = calls st @ [GetItem key, GetItem key]"
    and "store_read key ps st = (Ret x, st') \<Longrightarrow> \<not> awaiting_load st' key \<and> slots st' key = Some ViewOf"
proof -
  note sv = stored_value_defined[OF assms(3)]
  have eq: "store_read key ps st = andThen (cache_miss key) (\<lambda>_. read_from key HandlerRoot [] ps) st"
    using store_read_view[OF assms(1) awaiting_registered[OF assms(2)]]
      read_from_load_first[OF assms(2) sv assms(4)] by simp
  obtain res s where cm: "cache_miss key st = (res, s)" by (cases "cache_miss key st")
  show "calls (snd (store_read key ps st)) = calls st @ [GetItem key, GetItem key]"
  proof (cases res)
    case (Ret u)
    with cm have "\<not> awaiting_load s key" "calls s = calls st @ [GetItem key, GetItem key]"
      using cache_miss_ret[OF sv] by blast+
    then show ?thesis using eq cm Ret by (simp add: andThen_def read_from_pure)
  next
    case (Throw e)
    with cm have "calls s = calls st @ [GetItem key, GetItem key]"
      using cache_miss_throw[OF sv] by blast
    then show ?thesis using eq cm Throw by (simp add: andThen_def)
  qed
  show "\<not> awaiting_load st' key \<and> slots st' key = Some ViewOf" if r: "store_read key ps st = (Ret x, st')"
  proof (cases res)
    case (Ret u)
    with cm have q: "\<not> awaiting_load s key" and sl: "slots s = slots st"
      using cache_miss_ret[OF sv] by blast+
    have "snd (read_from key HandlerRoot [] ps s) = s" using q by (simp add: read_from_pure)
    then have "st' = s" using r eq cm Ret by (simp add: andThen_def)
    then show ?thesis using q sl assms(1) by simp
  next
    case (Throw e)
    then show ?thesis using r eq cm by (simp add: andThen_def)
  qed
qed

lemma getprop_non_object: "\<not> is_object t \<Longrightarrow> \<not> is_object (getprop t p)"
  by (cases t; cases p) (auto simp: is_object_def)

lemma set_at_non_object: "\<not> is_object t \<Longrightarrow> set_at t path k v = None"
proof (induction path arbitrary: t)
  case Nil
  then show ?case by (cases t) (auto simp: is_object_def)
next
  case (Cons p path)
  then show ?case using getprop_non_object[of t p] by simp
qed

lemma setprop_object: "setprop t k v = Some t2 \<Longrightarrow> is_object t2"
  by (cases t; cases k) (auto simp: is_object_def split: if_splits jsval.splits)

lemma set_at_object: "set_at t path k v = Some t2 \<Longrightarrow> is_object t2"
proof (cases path)
  case Nil
  assume "set_at t path k v = Some t2"
  then show ?thesis using Nil setprop_object by simp
next
  case (Cons p ps)
  assume a: "set_at t path k v = Some t2"
  have "is_object t" using a set_at_non_object by fastforce
  moreover obtain c where "t2 = replace_prop t p c" using a Cons by (auto split: option.splits)
  ultimately show ?thesis by (cases t; cases p) (auto simp: is_object_def)
qed

definition reserved :: "pkey \<Rightarrow> bool" where
  "reserved k = (k = cachedK \<or> k = persistedK)"

lemma set_at_reserved:
  assumes "set_at h path prop v = Some h2" and "reserved k" and "\<not> (path = [] \<and> prop = k)"
  shows "getprop h2 k = getprop h k \<or> is_object (getprop h2 k)"
proof (cases path)
  case Nil
  then have "setprop h prop v = Some h2" "prop \<noteq> k" using assms by auto
  then show ?thesis using assms(2)
    by (cases h; cases "prop")
       (auto simp: reserved_def cachedK_def persistedK_def update_conv' split: if_splits jsval.splits)
next
  case (Cons p ps)
  then obtain c where c: "set_at (getprop h p) ps prop v = Some c" and h2: "h2 = replace_prop h p c"
    using assms(1) by (auto split: option.splits)
  have "is_object c" using c by (rule set_at_object)
  then show ?thesis using h2 assms(2)
    by (cases h; cases p)
       (auto simp: reserved_def cachedK_def persistedK_def update_conv' split: if_splits)
qed

lemma persist_unpersisted:
  "slots st key = Some ViewOf \<Longrightarrow> getprop (the_handler st key) persistedK \<noteq> JBool True \<Longrightarrow>
   persist key st = (Ret (), st)"
  by (simp add: persist_view_quiet awaiting_load_def)

lemma setprop_flag:
  "setprop h prop v = Some h1 \<Longrightarrow> getprop h persistedK \<noteq> JBool True \<Longrightarrow>
   \<not> (prop = persistedK \<and> v = JBool True) \<Longrightarrow> getprop h1 persistedK \<noteq> JBool True"
  by (cases h; cases "prop")
     (auto simp: persistedK_def update_conv' split: if_splits jsval.splits)

lemma view_set_unpersisted:
  assumes "slots st key = Some ViewOf"
    and "getprop (the_handler st key) persistedK \<noteq> JBool True"
    and "\<not> (path = [] \<and> prop = persistedK \<and> v = JBool True)"
  shows "snd (view_set key HandlerRoot path prop v st) = st
         \<or> (\<exists>h'. snd (view_set key HandlerRoot path prop v st) = put_handler key h' st
                 \<and> getprop h' persistedK \<noteq> JBool True)"
proof -
  have q: "\<not> awaiting_load st key" using assms(2) by (simp add: awaiting_load_def)
  have p1: "\<And>h'. getprop h' persistedK \<noteq> JBool True \<Longrightarrow>
              persist key (put_handler key h' st) = (Ret (), put_handler key h' st)"
    using assms(1) by (simp add: persist_unpersisted)
  have flat: "\<And>h1. setprop (the_handler st key) prop v = Some h1 \<Longrightarrow> path = [] \<Longrightarrow>
               getprop h1 persistedK \<noteq> JBool True"
    using setprop_flag assms(2,3) by blast
  have deep: "\<And>h2. set_at (the_handler st key) path prop v = Some h2 \<Longrightarrow>
               getprop h2 persistedK \<noteq> JBool True"
  proof -
    fix h2 assume s: "set_at (the_handler st key) path prop v = Some h2"
    show "getprop h2 persistedK \<noteq> JBool True"
    proof (cases "path = [] \<and> prop = persistedK")
      case True
      then show ?thesis using s flat by simp
    next
      case False
      then show ?thesis
        using set_at_reserved[OF s, of persistedK] assms(2)
        by (auto simp: reserved_def is_object_def)
    qed
  qed
  show ?thesis
    unfolding view_set_quiet[OF q]
    using assms(2) p1 flat deep
    by (auto simp: Let_def andThen_def split: option.splits simp del: getprop.simps setprop.simps set_at.simps validateStructure.simps)
qed

lemma write_from_quiet:
  "\<not> awaiting_load st key \<Longrightarrow>
   (\<exists>e. write_from key HandlerRoot path ps v st = (Throw e, st)) \<or>
   (\<exists>path' p. write_from key HandlerRoot path ps v st = view_set key HandlerRoot path' p v st
       \<and> path @ ps = path' @ [p])"
proof (induction key HandlerRoot path ps v arbitrary: st rule: write_from.induct)
  case (1 key path v)
  then show ?case by (simp add: throw_def)
next
  case (2 key path p v)
  then show ?case by simp
next
  case (3 key path p q ps v)
  show ?case
  proof (cases "is_object (getprop (subvalue (the_handler st key) path) p)")
    case True
    then show ?thesis using "3.prems" "3.hyps"
      by (simp add: andThen_def view_get_pure through_def ret_def)
  next
    case False
    then show ?thesis using "3.prems"
      by (auto simp add: andThen_def view_get_pure through_def ret_def throw_def)
  qed
qed

lemma store_write_view:
  "slots st key = Some ViewOf \<Longrightarrow> the_handler st key \<noteq> JUndefined \<Longrightarrow>
   store_write key ps v st = write_from key HandlerRoot [] ps v st"
  by (simp add: store_write_def andThen_def facade_get_view)

lemma store_write_unregistered:
  "slots st key = Some ViewOf \<Longrightarrow> the_handler st key = JUndefined \<Longrightarrow>
   store_write key ps v st = (Throw JsTypeError, st)"
  by (simp add: store_write_def andThen_def facade_get_def through_def is_object_def throw_def)

lemma store_write_unpersisted:
  assumes "slots st key = Some ViewOf"
    and "getprop (the_handler st key) persistedK \<noteq> JBool True"
    and "\<not> (ps = [persistedK] \<and> v = JBool True)"
  shows "snd (store_write key ps v st) = st
         \<or> (\<exists>h'. snd (store_write key ps v st) = put_handler key h' st
                 \<and> getprop h' persistedK \<noteq> JBool True)"
proof (cases "the_handler st key = JUndefined")
  case True
  then show ?thesis using assms(1) by (simp add: store_write_unregistered)
next
  case False
  have q: "\<not> awaiting_load st key" using assms(2) by (simp add: awaiting_load_def)
  from write_from_quiet[OF q, of "[]" ps v]
  show ?thesis
  proof
    assume "\<exists>e. write_from key HandlerRoot [] ps v st = (Throw e, st)"
    then show ?thesis using store_write_view[OF assms(1) False] by auto
  next
    assume "\<exists>path' p. write_from key HandlerRoot [] ps v st = view_set key HandlerRoot path' p v st
       \<and> [] @ ps = path' @ [p]"
    then obtain path' p where w: "write_from key HandlerRoot [] ps v st = view_set key HandlerRoot path' p v st"
      and ps: "ps = path' @ [p]" by auto
    have "\<not> (path' = [] \<and> p = persistedK \<and> v = JBool True)" using assms(3) ps by auto
    from view_set_unpersisted[OF assms(1,2) this]
    show ?thesis using store_write_view[OF assms(1) False] w by simp
  qed
qed

section \<open>Keys that are not persisted\<close>

text \<open>
  A sequence of accesses to one key: reads and writes of properties at any depth.  An
  exception ends the access that raised it; the application goes on with the next one.
\<close>

datatype access = ReadAt "pkey list" | WriteAt "pkey list" jsval

fun perform :: "string \<Rightarrow> access \<Rightarrow> store \<Rightarrow> store" where
  "perform key (ReadAt ps) st = snd (store_read key ps st)"
| "perform key (WriteAt ps v) st = snd (store_write key ps v st)"

fun perform_all :: "string \<Rightarrow> access list \<Rightarrow> store \<Rightarrow> store" where
  "perform_all key [] st = st"
| "perform_all key (a # as) st = perform_all key as (perform key a st)"

fun switches_persisted_on :: "access \<Rightarrow> bool" where
  "switches_persisted_on (WriteAt ps v) = (ps = [persistedK] \<and> v = JBool True)"
| "switches_persisted_on (ReadAt ps) = False"

text \<open>
  Claim C9, as amended.  For a registered key whose \<^verbatim>\<open>_persisted\<close> flag is not
  \<^verbatim>\<open>true\<close>, no sequence of property reads and writes at any depth on its view invokes the
  durable backend (no \<^verbatim>\<open>getItem\<close>, no \<^verbatim>\<open>setItem\<close>, storage unchanged), as long as no
  write assigns \<^verbatim>\<open>true\<close> to the reserved top-level field \<^verbatim>\<open>_persisted\<close> itself.
\<close>

theorem unpersisted_key_leaves_backend_alone:
  assumes "slots st key = Some ViewOf"
    and "getprop (the_handler st key) persistedK \<noteq> JBool True"
    and "list_all (\<lambda>a. \<not> switches_persisted_on a) accesses"
  shows "calls (perform_all key accesses st) = calls st
         \<and> storage (perform_all key accesses st) = storage st"
  using assms
proof (induction accesses arbitrary: st)
  case Nil
  then show ?case by simp
next
  case (Cons a accesses)
  have step: "perform key a st = st
        \<or> (\<exists>h'. perform key a st = put_handler key h' st \<and> getprop h' persistedK \<noteq> JBool True)"
  proof (cases a)
    case (ReadAt ps)
    then show ?thesis using Cons.prems(2) by (simp add: store_read_pure awaiting_load_def)
  next
    case (WriteAt ps v)
    then show ?thesis using store_write_unpersisted[OF Cons.prems(1,2), of ps v] Cons.prems(3)
      by simp
  qed
  then have inv: "slots (perform key a st) key = Some ViewOf"
      "getprop (the_handler (perform key a st) key) persistedK \<noteq> JBool True"
      "calls (perform key a st) = calls st" "storage (perform key a st) = storage st"
    using Cons.prems(1,2) by auto
  show ?case using Cons.IH[OF inv(1,2)] Cons.prems(3) inv(3,4) by simp
qed

definition plain_mock :: store where
  "plain_mock = snd (register ''mock'' (JObj [(Field ''foo'', JStr '''')]) (empty_store Map.empty))"

theorem unpersisted_key_leaves_backend_alone_witness:
  "calls (perform_all ''mock''
            [WriteAt [Field ''foo''] (JStr ''x''), ReadAt [Field ''foo''],
             WriteAt [Field ''bar''] (JNum 1), WriteAt [persistedK] (JBool False)]
            plain_mock) = []
   \<and> storage (perform_all ''mock''
            [WriteAt [Field ''foo''] (JStr ''x''), ReadAt [Field ''foo''],
             WriteAt [Field ''bar''] (JNum 1), WriteAt [persistedK] (JBool False)]
            plain_mock) = storage plain_mock"
proof -
  have h1: "slots plain_mock ''mock'' = Some ViewOf" by code_simp
  have h2: "getprop (the_handler plain_mock ''mock'') persistedK \<noteq> JBool True" by code_simp
  have h3: "list_all (\<lambda>a. \<not> switches_persisted_on a)
              [WriteAt [Field ''foo''] (JStr ''x''), ReadAt [Field ''foo''],
               WriteAt [Field ''bar''] (JNum 1), WriteAt [persistedK] (JBool False)]"
    by (simp add: persistedK_def)
  have h4: "calls plain_mock = []" by code_simp
  show ?thesis using unpersisted_key_leaves_backend_alone[OF h1 h2 h3] h4 by simp
qed

text \<open>
  The claim as stated fails on the write \<^verbatim>\<open>Store.mock._persisted = true\<close> to a key registered
  without \<^verbatim>\<open>_persisted\<close>: the \<^verbatim>\<open>set\<close> trap stores the reserved field, and the
  \<^verbatim>\<open>_persist\<close> that follows reads the flag through the \<^verbatim>\<open>get\<close> trap, takes a cache miss
  and writes the object through.
\<close>

theorem switching_persisted_on_counterexample:
  "calls (snd (store_write ''mock'' [persistedK] (JBool True) plain_mock))
   = [GetItem ''mock'', GetItem ''mock'',
      SetItem ''mock'' (JObj [(Field ''foo'', JStr '''')])]"
  by code_simp

section \<open>Writes that are refused\<close>

definition merge_error :: "error \<Rightarrow> bool" where
  "merge_error e = (e = PersistentStructureMismatch \<or> e = Unmodelled \<or> e = JsTypeError)"

lemma from_props_errors: "from_props f = Inl e \<Longrightarrow> merge_error e"
  by (cases f) (auto simp: merge_error_def)

lemma assign_errors:
  "snd (assignProps t f) = Some e \<Longrightarrow> merge_error e"
  "snd (assign_each t fps) = Some e \<Longrightarrow> merge_error e"
proof (induction t f and t fps rule: assignProps_assign_each.induct)
  case (1 t f)
  then show ?case
    by (auto simp: assignProps.simps from_props_errors split: if_splits sum.splits)
next
  case (2 t)
  then show ?case by simp
next
  case (3 t p fv rest)
  note IH = "3.IH"[folded skips_def clashes_def]
  consider (skip) "skips t p"
    | (clash) "\<not> skips t p" "clashes t p fv"
    | (proto) "\<not> skips t p" "\<not> clashes t p fv" "is_object (member t p)" "inherits t p"
    | (deep) "\<not> skips t p" "\<not> clashes t p fv" "is_object (member t p)" "\<not> inherits t p"
    | (leaf) "\<not> skips t p" "\<not> clashes t p fv" "\<not> is_object (member t p)"
    by blast
  then show ?case
  proof cases
    case skip
    then show ?thesis using IH(1) "3.prems" by (simp add: assign_each_skip del: assign_each.simps)
  next
    case clash
    then show ?thesis using "3.prems"
      by (simp add: assign_each_clash merge_error_def del: assign_each.simps)
  next
    case proto
    show ?thesis
    proof (cases "fv = JNull")
      case True
      have "assign_each t ((p, fv) # rest) = assign_each t rest"
        using assign_each_proto[OF proto, of rest] True by simp
      then show ?thesis using IH(2)[OF proto True] "3.prems" by simp
    next
      case False
      have "assign_each t ((p, fv) # rest) = (t, Some Unmodelled)"
        using assign_each_proto[OF proto, of rest] False by simp
      then show ?thesis using "3.prems" by (simp add: merge_error_def)
    qed
  next
    case deep
    obtain tv' r where r: "assignProps (getprop t p) fv = (tv', r)"
      by (cases "assignProps (getprop t p) fv")
    show ?thesis
    proof (cases r)
      case None
      then show ?thesis using IH(4)[OF deep r[symmetric]] "3.prems" r
        by (simp add: assign_each_deep[OF deep] del: assign_each.simps)
    next
      case (Some err)
      then show ?thesis using IH(3)[OF deep] "3.prems" r
        by (simp add: assign_each_deep[OF deep] del: assign_each.simps)
    qed
  next
    case leaf
    show ?thesis
    proof (cases "setprop t p fv")
      case None
      then show ?thesis using "3.prems"
        by (simp add: assign_each_leaf[OF leaf] merge_error_def del: assign_each.simps)
    next
      case (Some t')
      then show ?thesis using IH(5)[OF leaf Some] "3.prems"
        by (simp add: assign_each_leaf[OF leaf] del: assign_each.simps)
    qed
  qed
qed

lemma andThen_Throw:
  "andThen m f st = (Throw e, s') \<Longrightarrow>
   m st = (Throw e, s') \<or> (\<exists>x s1. m st = (Ret x, s1) \<and> f x s1 = (Throw e, s'))"
  by (auto simp: andThen_def split: prod.splits outcome.splits)

lemma assign_raw_errors: "assign_raw key r path p v st = (Throw e, s) \<Longrightarrow> merge_error e"
  by (auto simp: assign_raw_def merge_error_def split: option.splits)

lemma assign_into_handler_errors: "assign_into_handler key d st = (Throw e, s) \<Longrightarrow> merge_error e"
  using assign_errors(1)[of "the_handler st key" d e]
  by (auto simp: assign_into_handler_def split: prod.splits option.splits)

lemma getPersistedProperty_total: "getPersistedProperty key st \<noteq> (Throw e, s)"
  by (simp add: getPersistedProperty_def)

lemma cache_miss_errors: "cache_miss key st = (Throw e, s) \<Longrightarrow> merge_error e"
  unfolding cache_miss_def
  by (auto dest!: andThen_Throw assign_raw_errors assign_into_handler_errors
      simp: getPersistedProperty_total ret_def split: if_splits)

lemma proxy_get_errors: "proxy_get key r path p st = (Throw e, s) \<Longrightarrow> merge_error e"
  unfolding proxy_get_def
  by (auto dest!: andThen_Throw cache_miss_errors split: if_splits)

lemma reserved_set_errors:
  "proxy_set_core key HandlerRoot [] p (JBool b) st = (Throw e, s) \<Longrightarrow> reserved p \<Longrightarrow> merge_error e"
  unfolding proxy_set_core_def
  by (auto dest!: andThen_Throw assign_raw_errors simp: is_handler_def reserved_def ret_def
      split: if_splits)

lemma persist_errors: "persist key st = (Throw e, s) \<Longrightarrow> merge_error e"
proof (cases "slots st key")
  case None
  assume "persist key st = (Throw e, s)"
  then show ?thesis using None by (simp add: persist_def merge_error_def)
next
  case (Some sl)
  assume a: "persist key st = (Throw e, s)"
  show ?thesis
  proof (cases sl)
    case ViewOf
    have c: "reserved cachedK" "reserved persistedK" by (simp_all add: reserved_def)
    show ?thesis using a Some ViewOf
      unfolding persist_def
      by (auto dest!: andThen_Throw proxy_get_errors reserved_set_errors[OF _ c(1)]
          reserved_set_errors[OF _ c(2)]
          simp: ret_def setPersistedProperty_def split: if_splits)
  next
    case (Plain v)
    show ?thesis using a Some Plain
      unfolding persist_def
      by (auto dest!: andThen_Throw assign_raw_errors
          simp: ret_def setPersistedProperty_def merge_error_def split: if_splits)
  qed
qed

lemma write_from_load_first:
  assumes "awaiting_load st key" and "stored_value st key \<noteq> JUndefined" and "ps \<noteq> []"
  shows "write_from key HandlerRoot [] ps v st
         = andThen (cache_miss key) (\<lambda>_. write_from key HandlerRoot [] ps v) st"
proof (cases ps)
  case Nil
  then show ?thesis using assms(3) by simp
next
  case (Cons p qs)
  show ?thesis
  proof (cases qs)
    case Nil
    then show ?thesis using Cons view_set_load_first[OF assms(1,2)] by simp
  next
    case (Cons q qs')
    then show ?thesis using \<open>ps = p # qs\<close> view_get_load_first[OF assms(1,2), of p]
      by (simp add: andThen_def split: prod.splits outcome.splits)
  qed
qed

definition validation_error :: "error \<Rightarrow> bool" where
  "validation_error e = (e = StructureMismatch \<or> e = AssignmentInvalid)"

lemma validation_not_merge: "validation_error e \<Longrightarrow> \<not> merge_error e"
  by (auto simp: validation_error_def merge_error_def)

lemma view_set_rejected_quiet:
  assumes "\<not> awaiting_load st key" and "view_set key HandlerRoot path p v st = (Throw e, st')"
    and "validation_error e"
  shows "st' = st"
proof -
  have pe: "\<And>s s'. persist key s = (Throw e, s') \<Longrightarrow> False"
    using persist_errors validation_not_merge[OF assms(3)] by blast
  have pp: "\<And>s s'. andThen (persist key) (\<lambda>_. persist key) s = (Throw e, s') \<Longrightarrow> False"
    using pe by (auto dest!: andThen_Throw)
  have un: "e \<noteq> Unmodelled" using assms(3) by (auto simp: validation_error_def)
  show ?thesis
    using assms(2) un pe pp unfolding view_set_quiet[OF assms(1)]
    by (auto simp: Let_def split: if_splits option.splits
        simp del: getprop.simps setprop.simps set_at.simps validateStructure.simps)
qed

lemma write_rejected_quiet:
  assumes "slots st key = Some ViewOf" and "\<not> awaiting_load st key"
    and "store_write key ps v st = (Throw e, st')" and "validation_error e"
  shows "st' = st"
proof (cases "the_handler st key = JUndefined")
  case True
  then show ?thesis using assms(1,3) by (simp add: store_write_unregistered)
next
  case False
  have w: "write_from key HandlerRoot [] ps v st = (Throw e, st')"
    using assms(3) store_write_view[OF assms(1) False] by simp
  from write_from_quiet[OF assms(2), of "[]" ps v] show ?thesis
  proof
    assume "\<exists>e. write_from key HandlerRoot [] ps v st = (Throw e, st)"
    then show ?thesis using w by auto
  next
    assume "\<exists>path' p. write_from key HandlerRoot [] ps v st = view_set key HandlerRoot path' p v st
       \<and> [] @ ps = path' @ [p]"
    then show ?thesis using w view_set_rejected_quiet[OF assms(2) _ assms(4)] by auto
  qed
qed

definition persisted_mock :: store where
  "persisted_mock =
     snd (register ''mock'' (JObj [(Field ''foo'', JStr ''''), (persistedK, JBool True)])
            (empty_store Map.empty))"

text \<open>
  Claim C3, as amended.  A write through a registered view that validation refuses (the
  structure mismatch of the validator, or the invalid assignment of an unknown field)
  leaves durable storage as it was; and where the key is not awaiting its load (it is not
  persisted, or it is cached) the entire store state, reserved fields and backend calls
  included, is the state before the write.  On a persisted key that awaits its load the
  refused write has still taken the cache miss.
\<close>

theorem rejected_write_state:
  assumes "slots st key = Some ViewOf"
    and "storage st key \<noteq> Some JUndefined"
    and "store_write key ps v st = (Throw e, st')"
    and "e = StructureMismatch \<or> e = AssignmentInvalid"
  shows "storage st' = storage st \<and> (\<not> awaiting_load st key \<longrightarrow> st' = st)"
proof (cases "awaiting_load st key")
  case False
  then show ?thesis
    using write_rejected_quiet[OF assms(1) False assms(3)] assms(4)
    by (simp add: validation_error_def)
next
  case True
  note sv = stored_value_defined[OF assms(2)]
  have ve: "validation_error e" using assms(4) by (simp add: validation_error_def)
  have reg: "the_handler st key \<noteq> JUndefined" using True by (rule awaiting_registered)
  have ne: "ps \<noteq> []"
  proof
    assume "ps = []"
    then have "store_write key ps v st = (Throw Unmodelled, st)"
      using store_write_view[OF assms(1) reg] by (simp add: throw_def)
    then show False using assms(3,4) by auto
  qed
  have eq: "store_write key ps v st
            = andThen (cache_miss key) (\<lambda>_. write_from key HandlerRoot [] ps v) st"
    using store_write_view[OF assms(1) reg] write_from_load_first[OF True sv ne] by simp
  obtain res s where cm: "cache_miss key st = (res, s)" by (cases "cache_miss key st")
  show ?thesis
  proof (cases res)
    case (Throw e')
    then have "e' = e" "s = st'" using eq cm assms(3) by (simp_all add: andThen_def)
    then show ?thesis using cm Throw cache_miss_errors validation_not_merge[OF ve] by blast
  next
    case (Ret u)
    then have s: "\<not> awaiting_load s key" "storage s = storage st" "slots s = slots st"
      using cm cache_miss_ret[OF sv] by blast+
    have w: "write_from key HandlerRoot [] ps v s = (Throw e, st')"
      using eq cm Ret assms(3) by (simp add: andThen_def)
    have "st' = s"
    proof (cases "the_handler s key = JUndefined")
      case True
      from write_from_quiet[OF s(1), of "[]" ps v] show ?thesis
      proof
        assume "\<exists>e. write_from key HandlerRoot [] ps v s = (Throw e, s)"
        then show ?thesis using w by auto
      next
        assume "\<exists>path' p. write_from key HandlerRoot [] ps v s = view_set key HandlerRoot path' p v s
           \<and> [] @ ps = path' @ [p]"
        then show ?thesis using w view_set_rejected_quiet[OF s(1) _ ve] by auto
      qed
    next
      case False
      have "store_write key ps v s = (Throw e, st')"
        using w store_write_view[of s key] s(3) assms(1) False by simp
      then show ?thesis
        using write_rejected_quiet[of s key ps v e st'] s assms(1) ve by simp
    qed
    then show ?thesis using s(2) True by simp
  qed
qed

theorem rejected_write_state_witness:
  "store_write ''mock'' [Field ''bar''] (JStr ''hello'') plain_mock
     = (Throw AssignmentInvalid, plain_mock)"
proof -
  have h1: "slots plain_mock ''mock'' = Some ViewOf" by code_simp
  have h2: "storage plain_mock ''mock'' \<noteq> Some JUndefined" by code_simp
  have h3: "\<not> awaiting_load plain_mock ''mock''" by code_simp
  have h4: "fst (store_write ''mock'' [Field ''bar''] (JStr ''hello'') plain_mock)
              = Throw AssignmentInvalid" by code_simp
  obtain st' where r: "store_write ''mock'' [Field ''bar''] (JStr ''hello'') plain_mock
      = (Throw AssignmentInvalid, st')"
    using h4 by (cases "store_write ''mock'' [Field ''bar''] (JStr ''hello'') plain_mock") auto
  from rejected_write_state[OF h1 h2 r] h3 have "st' = plain_mock" by simp
  with r show ?thesis by simp
qed

text \<open>
  The claim as stated fails on a persisted key that was just registered: the refused write
  \<^verbatim>\<open>Store.mock.bar = 'hello'\<close> reads \<^verbatim>\<open>target[property]\<close> first, which takes the cache
  miss and flips \<^verbatim>\<open>_cached\<close> to \<^verbatim>\<open>true\<close> before the exception.
\<close>

theorem rejected_write_counterexample:
  "fst (store_write ''mock'' [Field ''bar''] (JStr ''hello'') persisted_mock)
     = Throw AssignmentInvalid
   \<and> getprop (the_handler persisted_mock ''mock'') cachedK = JBool False
   \<and> getprop (the_handler
        (snd (store_write ''mock'' [Field ''bar''] (JStr ''hello'') persisted_mock)) ''mock'')
        cachedK = JBool True"
  by code_simp

section \<open>Type disagreements in an assignment\<close>

fun objects_along :: "jsval \<Rightarrow> pkey list \<Rightarrow> bool" where
  "objects_along t [] = True"
| "objects_along t (q # qs) = (is_object (getprop t q) \<and> objects_along (getprop t q) qs)"

lemma subvalue_snoc: "subvalue t (path @ [p]) = getprop (subvalue t path) p"
  by (induction path arbitrary: t) simp_all

lemma write_from_resolves:
  "\<not> awaiting_load st key \<Longrightarrow> objects_along (subvalue (the_handler st key) pre) path \<Longrightarrow>
   write_from key HandlerRoot pre (path @ [p]) v st = view_set key HandlerRoot (pre @ path) p v st"
proof (induction path arbitrary: pre)
  case Nil
  then show ?case by simp
next
  case (Cons q path)
  have ob: "is_object (getprop (subvalue (the_handler st key) pre) q)"
    and rest: "objects_along (subvalue (the_handler st key) (pre @ [q])) path"
    using Cons.prems(2) by (simp_all add: subvalue_snoc)
  obtain r rs where pr: "path @ [p] = r # rs" by (cases "path @ [p]") auto
  have "write_from key HandlerRoot pre ((q # path) @ [p]) v st
        = write_from key HandlerRoot (pre @ [q]) (path @ [p]) v st"
    using Cons.prems(1) ob pr
    by (simp add: andThen_def view_get_pure through_def ret_def)
  then show ?case using Cons.IH[OF Cons.prems(1) rest] by simp
qed

text \<open>
  A disagreement of type between the value in place and the value assigned, found by
  following \<open>qs\<close> through non-array objects of the value in place.
\<close>

fun type_clash :: "jsval \<Rightarrow> jsval \<Rightarrow> pkey list \<Rightarrow> bool" where
  "type_clash a b [] = False"
| "type_clash a b [q] =
     (plain_object a \<and> is_object a \<and> is_object b
      \<and> list_ex (\<lambda>e. fst e = q \<and> getprop a q \<noteq> JUndefined \<and> getprop a q \<noteq> JNull
                        \<and> snd e \<noteq> JNull \<and> typeof (getprop a q) \<noteq> typeof (snd e))
                 (own_props b))"
| "type_clash a b (q # r # qs) =
     (plain_object a \<and> is_object a \<and> is_object b
      \<and> list_ex (\<lambda>e. fst e = q \<and> is_object (getprop a q) \<and> is_object (snd e)
                        \<and> type_clash (getprop a q) (snd e) (r # qs))
                 (own_props b))"

lemma validate_pass0_fails:
  assumes "plain_object a" and "is_object a" and "is_object b"
    and "(q, bv) \<in> set (own_props b)" and "\<not> validate_prop 0 a (q, bv)"
  shows "\<not> validateStructure a b"
proof -
  have "\<not> list_all (validate_prop 0 a) (own_props b)"
    unfolding list_all_iff using assms(4,5) by blast
  then show ?thesis using assms(2,3)
    by (auto simp: is_object_def simp del: validate_prop.simps)
qed

lemma type_clash_object: "type_clash a b qs \<Longrightarrow> is_object a"
  by (induction a b qs rule: type_clash.induct) auto

lemma clash_rejected: "type_clash a b qs \<Longrightarrow> \<not> validateStructure a b"
proof (induction a b qs rule: type_clash.induct)
  case (1 a b)
  then show ?case by simp
next
  case (2 a b q)
  then obtain bv where bv: "(q, bv) \<in> set (own_props b)"
    and c: "getprop a q \<noteq> JUndefined" "getprop a q \<noteq> JNull" "bv \<noteq> JNull"
      "typeof (getprop a q) \<noteq> typeof bv"
    and ab: "plain_object a" "is_object a" "is_object b"
    by (auto simp: list_ex_iff)
  have "\<not> validate_prop 0 a (q, bv)" using c ab(1) by simp
  then show ?case using validate_pass0_fails[OF ab bv] by blast
next
  case (3 a b q r qs)
  then obtain bv where bv: "(q, bv) \<in> set (own_props b)"
    and c: "is_object (getprop a q)" "is_object bv" "type_clash (getprop a q) bv (r # qs)"
    and ab: "plain_object a" "is_object a" "is_object b"
    by (auto simp: list_ex_iff)
  have "\<not> validateStructure (getprop a q) bv"
    using "3.IH"[of "(q, bv)"] bv c(3) by simp
  then have "\<not> validate_prop 0 a (q, bv)" using c ab(1)
    by (auto simp: is_object_def simp del: validateStructure.simps)
  then show ?case using validate_pass0_fails[OF ab bv] by blast
qed

text \<open>
  Claim C2, as amended.  An assignment through the view is refused with the structure
  mismatch where the value in place at the assigned path and the assigned value are both
  objects and, following a path of one or more fields through non-array objects of the value
  in place, the two sides hold non-null values of different \<^verbatim>\<open>typeof\<close>.  The value in
  place is the one in memory, the key not awaiting its load; nothing is written.  (At the
  assigned path itself the types are not compared: see the counterexample.)
\<close>

theorem nested_type_clash_rejected:
  assumes "slots st key = Some ViewOf"
    and "\<not> awaiting_load st key"
    and "objects_along (the_handler st key) path"
    and "type_clash (subvalue (the_handler st key) (path @ [p])) v qs"
  shows "store_write key (path @ [p]) v st = (Throw StructureMismatch, st)"
proof -
  have und: "\<And>ps. subvalue JUndefined ps = JUndefined"
  proof -
    fix ps show "subvalue JUndefined ps = JUndefined" by (induction ps) simp_all
  qed
  have reg: "the_handler st key \<noteq> JUndefined"
    using type_clash_object[OF assms(4)] und by (auto simp: is_object_def)
  have "\<not> validateStructure (getprop (subvalue (the_handler st key) path) p) v"
    using clash_rejected[OF assms(4)] by (simp add: subvalue_snoc)
  then have "view_set key HandlerRoot path p v st = (Throw StructureMismatch, st)"
    unfolding view_set_quiet[OF assms(2)] by (simp add: Let_def del: validateStructure.simps)
  then show ?thesis
    using store_write_view[OF assms(1) reg] write_from_resolves[OF assms(2), of "[]" path p v] assms(3)
    by simp
qed

definition nested_mock :: store where
  "nested_mock =
     snd (register ''cfg''
            (JObj [(Field ''outer'', JObj [(Field ''inner'', JObj [(Field ''a'', JStr '''')])])])
            (empty_store Map.empty))"

theorem nested_type_clash_rejected_witness:
  "store_write ''cfg'' [Field ''outer''] (JObj [(Field ''inner'', JObj [(Field ''a'', JNum 5)])])
     nested_mock = (Throw StructureMismatch, nested_mock)
   \<and> store_write ''cfg'' [Field ''outer'', Field ''inner''] (JObj [(Field ''a'', JNum 5)])
     nested_mock = (Throw StructureMismatch, nested_mock)"
proof -
  have h1: "slots nested_mock ''cfg'' = Some ViewOf" by code_simp
  have h2: "\<not> awaiting_load nested_mock ''cfg''" by code_simp
  have h3: "objects_along (the_handler nested_mock ''cfg'') []" by simp
  have h4: "type_clash (subvalue (the_handler nested_mock ''cfg'') ([] @ [Field ''outer'']))
              (JObj [(Field ''inner'', JObj [(Field ''a'', JNum 5)])])
              [Field ''inner'', Field ''a'']" by code_simp
  have h5: "objects_along (the_handler nested_mock ''cfg'') [Field ''outer'']" by code_simp
  have h6: "type_clash
              (subvalue (the_handler nested_mock ''cfg'') ([Field ''outer''] @ [Field ''inner'']))
              (JObj [(Field ''a'', JNum 5)]) [Field ''a'']" by code_simp
  show ?thesis
    using nested_type_clash_rejected[OF h1 h2 h3 h4] nested_type_clash_rejected[OF h1 h2 h5 h6]
    by simp
qed

text \<open>
  The claim as stated fails at a scalar leaf: the validator returns at once unless both
  values are objects, so a number assigned over a string is accepted and read back.
\<close>

theorem scalar_type_clash_counterexample:
  "typeof (subvalue (the_handler plain_mock ''mock'') [Field ''foo'']) = T_string
   \<and> typeof (JNum 5) = T_number
   \<and> fst (store_write ''mock'' [Field ''foo''] (JNum 5) plain_mock) = Ret ()
   \<and> fst (store_read ''mock'' [Field ''foo'']
             (snd (store_write ''mock'' [Field ''foo''] (JNum 5) plain_mock))) = Ret (JNum 5)"
  by code_simp

section \<open>The lazy load\<close>

fun is_get :: "event \<Rightarrow> bool" where
  "is_get (GetItem k) = True"
| "is_get (SetItem k v) = False"

text \<open>A key that is cached, seen from a later state: no further \<^verbatim>\<open>getItem\<close> was made.\<close>

definition cached_view :: "store \<Rightarrow> string \<Rightarrow> bool" where
  "cached_view st key =
     (slots st key = Some ViewOf \<and> getprop (the_handler st key) cachedK \<noteq> JBool False)"

definition no_new_gets :: "store \<Rightarrow> string \<Rightarrow> store \<Rightarrow> bool" where
  "no_new_gets st key st' =
     (filter is_get (calls st') = filter is_get (calls st) \<and> cached_view st' key)"

lemma cached_view_quiet: "cached_view st key \<Longrightarrow> \<not> awaiting_load st key"
  by (simp add: cached_view_def awaiting_load_def)

lemma no_new_gets_refl: "cached_view st key \<Longrightarrow> no_new_gets st key st"
  by (simp add: no_new_gets_def)

lemma no_new_gets_trans:
  "no_new_gets st key s1 \<Longrightarrow> no_new_gets s1 key s2 \<Longrightarrow> no_new_gets st key s2"
  by (simp add: no_new_gets_def)

lemma restore_flags_cached:
  "getprop h persistedK = JBool True \<Longrightarrow>
   getprop (restore_flags (strip_flags h)) cachedK = JBool True"
proof -
  assume "getprop h persistedK = JBool True"
  then obtain ps where "h = JObj ps" using flag_is_obj by blast
  then show ?thesis by (simp add: restore_flags_def strip_flags_def update_conv')
qed

lemma persist_cached:
  assumes "cached_view st key"
  shows "\<exists>s. persist key st = (Ret (), s) \<and> no_new_gets st key s"
proof -
  have q: "\<not> awaiting_load st key" and sl: "slots st key = Some ViewOf"
    using assms by (simp_all add: cached_view_quiet cached_view_def)
  show ?thesis
    unfolding persist_view_quiet[OF sl q]
    using assms
    by (auto simp: no_new_gets_def cached_view_def persisted_state_def restore_flags_cached)
qed

lemma persist_twice_cached:
  assumes "cached_view st key"
  shows "\<exists>s. andThen (persist key) (\<lambda>_. persist key) st = (Ret (), s) \<and> no_new_gets st key s"
proof -
  obtain s1 where 1: "persist key st = (Ret (), s1)" "no_new_gets st key s1"
    using persist_cached[OF assms] by blast
  then have "cached_view s1 key" by (simp add: no_new_gets_def)
  then obtain s2 where 2: "persist key s1 = (Ret (), s2)" "no_new_gets s1 key s2"
    using persist_cached by blast
  show ?thesis using 1 2 no_new_gets_trans by (auto simp: andThen_def)
qed

lemma cached_view_put:
  "cached_view st key \<Longrightarrow> getprop h cachedK \<noteq> JBool False \<Longrightarrow>
   cached_view (put_handler key h st) key"
  by (simp add: cached_view_def)

lemma no_new_gets_put:
  "cached_view (put_handler key h st) key \<Longrightarrow> no_new_gets (put_handler key h st) key s \<Longrightarrow>
   no_new_gets st key s"
  by (simp add: no_new_gets_def)

lemma setprop_keeps_cached:
  "setprop h p v = Some h1 \<Longrightarrow> p \<noteq> cachedK \<Longrightarrow> getprop h cachedK \<noteq> JBool False \<Longrightarrow>
   getprop h1 cachedK \<noteq> JBool False"
  by (cases h; cases p)
     (auto simp: cachedK_def update_conv' split: if_splits jsval.splits)

lemma set_at_keeps_cached:
  assumes "set_at h path p v = Some h2" and "\<not> (path = [] \<and> p = cachedK)"
    and "getprop h cachedK \<noteq> JBool False"
  shows "getprop h2 cachedK \<noteq> JBool False"
  using set_at_reserved[OF assms(1), of cachedK] assms(2,3)
  by (auto simp: reserved_def is_object_def)

lemma mark_cached_flag: "getprop h persistedK = JBool True \<Longrightarrow> getprop (mark_cached h) cachedK = JBool True"
proof -
  assume "getprop h persistedK = JBool True"
  then obtain ps where "h = JObj ps" using flag_is_obj by blast
  then show ?thesis by (simp add: mark_cached_def update_conv')
qed

lemma view_set_cached:
  assumes "cached_view st key" and "\<not> (path = [] \<and> p = cachedK)"
  shows "no_new_gets st key (snd (view_set key HandlerRoot path p v st))"
proof -
  have q: "\<not> awaiting_load st key" using assms(1) by (rule cached_view_quiet)
  have c: "getprop (the_handler st key) cachedK \<noteq> JBool False"
    using assms(1) by (simp add: cached_view_def)
  have one: "\<And>h1. getprop h1 cachedK \<noteq> JBool False \<Longrightarrow>
               no_new_gets st key (snd (persist key (put_handler key h1 st)))"
  proof -
    fix h1 assume "getprop h1 cachedK \<noteq> JBool False"
    then have cv: "cached_view (put_handler key h1 st) key" using assms(1) by (rule cached_view_put[rotated])
    then obtain s where "persist key (put_handler key h1 st) = (Ret (), s)"
        "no_new_gets (put_handler key h1 st) key s" using persist_cached by blast
    then show "no_new_gets st key (snd (persist key (put_handler key h1 st)))"
      using no_new_gets_put[OF cv] by simp
  qed
  have two: "\<And>h1. getprop h1 cachedK \<noteq> JBool False \<Longrightarrow>
               no_new_gets st key (snd (andThen (persist key) (\<lambda>_. persist key) (put_handler key h1 st)))"
  proof -
    fix h1 assume "getprop h1 cachedK \<noteq> JBool False"
    then have cv: "cached_view (put_handler key h1 st) key" using assms(1) by (rule cached_view_put[rotated])
    then obtain s where "andThen (persist key) (\<lambda>_. persist key) (put_handler key h1 st) = (Ret (), s)"
        "no_new_gets (put_handler key h1 st) key s" using persist_twice_cached by blast
    then show "no_new_gets st key (snd (andThen (persist key) (\<lambda>_. persist key) (put_handler key h1 st)))"
      using no_new_gets_put[OF cv] by simp
  qed
  have mc: "getprop (the_handler st key) persistedK = JBool True \<Longrightarrow>
            no_new_gets st key (put_handler key (mark_cached (the_handler st key)) st)"
    using assms(1) by (simp add: no_new_gets_def cached_view_def mark_cached_flag)
  show ?thesis
    unfolding view_set_quiet[OF q]
    using assms c one two mc no_new_gets_refl[OF assms(1)]
      setprop_keeps_cached[of "the_handler st key" p v]
      set_at_keeps_cached[of "the_handler st key" path p v]
      set_at_keeps_cached[of "mark_cached (the_handler st key)" path p v]
      mark_cached_flag[of "the_handler st key"]
    by (auto simp: Let_def split: option.splits
        simp del: getprop.simps setprop.simps set_at.simps validateStructure.simps)
qed

lemma store_write_cached:
  assumes "cached_view st key" and "ps \<noteq> [cachedK]"
  shows "no_new_gets st key (snd (store_write key ps v st))"
proof (cases "the_handler st key = JUndefined")
  case True
  then show ?thesis using assms(1) by (simp add: cached_view_def store_write_unregistered no_new_gets_def)
next
  case False
  have sl: "slots st key = Some ViewOf" using assms(1) by (simp add: cached_view_def)
  from write_from_quiet[OF cached_view_quiet[OF assms(1)], of "[]" ps v] show ?thesis
  proof
    assume "\<exists>e. write_from key HandlerRoot [] ps v st = (Throw e, st)"
    then show ?thesis using store_write_view[OF sl False] no_new_gets_refl[OF assms(1)] by auto
  next
    assume "\<exists>path' p. write_from key HandlerRoot [] ps v st = view_set key HandlerRoot path' p v st
       \<and> [] @ ps = path' @ [p]"
    then obtain path' p where w: "write_from key HandlerRoot [] ps v st = view_set key HandlerRoot path' p v st"
      and ps: "ps = path' @ [p]" by auto
    have "\<not> (path' = [] \<and> p = cachedK)" using assms(2) ps by auto
    from view_set_cached[OF assms(1) this] show ?thesis using store_write_view[OF sl False] w by simp
  qed
qed

lemma cache_miss_cached:
  assumes "stored_value st key \<noteq> JUndefined" and "slots st key = Some ViewOf"
    and "cache_miss key st = (Ret u, s)"
  shows "cached_view s key"
  using assms(2,3) unfolding cache_miss_eq[OF assms(1)]
  by (auto split: prod.splits option.splits simp: cached_view_def dest!: setprop_cached)

lemma cached_view_storage [simp]: "cached_view (st\<lparr>storage := d\<rparr>) key = cached_view st key"
  by (simp add: cached_view_def)

text \<open>
  What may happen to a cached key between two reads: a property read, a property write, or
  durable storage replaced behind the store's back.
\<close>

datatype event_between = Access access | OutOfBand "string \<Rightarrow> jsval option"

fun between :: "string \<Rightarrow> event_between \<Rightarrow> store \<Rightarrow> store" where
  "between key (Access a) st = perform key a st"
| "between key (OutOfBand disk) st = st\<lparr>storage := disk\<rparr>"

fun between_all :: "string \<Rightarrow> event_between list \<Rightarrow> store \<Rightarrow> store" where
  "between_all key [] st = st"
| "between_all key (e # es) st = between_all key es (between key e st)"

fun uncaches :: "event_between \<Rightarrow> bool" where
  "uncaches (Access (WriteAt ps v)) = (ps = [cachedK])"
| "uncaches e = False"

lemma between_cached:
  assumes "cached_view st key" and "\<not> uncaches e"
  shows "no_new_gets st key (between key e st)"
proof (cases e)
  case (OutOfBand disk)
  then show ?thesis using assms(1) by (simp add: no_new_gets_def)
next
  case (Access a)
  show ?thesis
  proof (cases a)
    case (ReadAt ps)
    then show ?thesis
      using Access assms(1) cached_view_quiet[OF assms(1)] no_new_gets_refl[OF assms(1)]
      by (simp add: store_read_pure)
  next
    case (WriteAt ps v)
    then show ?thesis using Access assms store_write_cached[of st key ps v] by simp
  qed
qed

lemma between_all_cached:
  "cached_view st key \<Longrightarrow> list_all (\<lambda>e. \<not> uncaches e) es \<Longrightarrow>
   no_new_gets st key (between_all key es st)"
proof (induction es arbitrary: st)
  case Nil
  then show ?case by (simp add: no_new_gets_refl)
next
  case (Cons e es)
  have a: "no_new_gets st key (between key e st)"
    using between_cached[OF Cons.prems(1)] Cons.prems(2) by simp
  then have "cached_view (between key e st) key" by (simp add: no_new_gets_def)
  then have "no_new_gets (between key e st) key (between_all key es (between key e st))"
    using Cons.IH Cons.prems(2) by simp
  then show ?case using a no_new_gets_trans by simp
qed

lemma later_read_quiet:
  assumes "cached_view s key" and "list_all (\<lambda>e. \<not> uncaches e) es"
  shows "filter is_get (calls (between_all key es s)) = filter is_get (calls s)
         \<and> snd (store_read key qs (between_all key es s)) = between_all key es s"
proof -
  have n: "no_new_gets s key (between_all key es s)" using between_all_cached[OF assms] .
  then have "\<not> awaiting_load (between_all key es s) key"
    using cached_view_quiet by (simp add: no_new_gets_def)
  then show ?thesis using n by (simp add: store_read_pure no_new_gets_def)
qed

text \<open>
  Claim C1, as amended.  For a registered persisted key that awaits its load (as after
  registration or \<^verbatim>\<open>clearCache()\<close>), the first property read takes one cache miss, which
  calls \<^verbatim>\<open>getItem\<close> exactly twice and nothing else on the backend; the first property
  write, other than one to the reserved field \<^verbatim>\<open>_cached\<close> itself, also causes exactly two
  \<^verbatim>\<open>getItem\<close> calls.  After a first read or write that returned, and whatever property
  reads, property writes other than to \<^verbatim>\<open>_cached\<close> itself, and out-of-band changes of
  durable storage come in between, no further \<^verbatim>\<open>getItem\<close> is made and every read leaves the
  whole state as it is.
\<close>

theorem first_access_loads_once:
  assumes "slots st key = Some ViewOf"
    and "awaiting_load st key"
    and "storage st key \<noteq> Some JUndefined"
    and "ps \<noteq> []"
    and "list_all (\<lambda>e. \<not> uncaches e) es"
  shows "calls (snd (store_read key ps st)) = calls st @ [GetItem key, GetItem key]
       \<and> (ps \<noteq> [cachedK] \<longrightarrow>
            filter is_get (calls (snd (store_write key ps v st)))
              = filter is_get (calls st) @ [GetItem key, GetItem key])
       \<and> (fst (store_read key ps st) = Ret x \<longrightarrow>
            filter is_get (calls (between_all key es (snd (store_read key ps st))))
              = filter is_get (calls (snd (store_read key ps st)))
            \<and> snd (store_read key qs (between_all key es (snd (store_read key ps st))))
              = between_all key es (snd (store_read key ps st)))
       \<and> (fst (store_write key ps v st) = Ret () \<and> ps \<noteq> [cachedK] \<longrightarrow>
            filter is_get (calls (between_all key es (snd (store_write key ps v st))))
              = filter is_get (calls (snd (store_write key ps v st)))
            \<and> snd (store_read key qs (between_all key es (snd (store_write key ps v st))))
              = between_all key es (snd (store_write key ps v st)))"
proof (intro conjI impI)
  note sv = stored_value_defined[OF assms(3)]
  note reg = awaiting_registered[OF assms(2)]
  note first = assms(1-4)
  show "calls (snd (store_read key ps st)) = calls st @ [GetItem key, GetItem key]"
    using first_read(1)[OF first] .
  obtain res s where cm: "cache_miss key st = (res, s)" by (cases "cache_miss key st")
  have eq: "store_write key ps v st
            = andThen (cache_miss key) (\<lambda>_. write_from key HandlerRoot [] ps v) st"
    using store_write_view[OF assms(1) reg] write_from_load_first[OF assms(2) sv assms(4)] by simp
  have after: "res = Ret () \<Longrightarrow> ps \<noteq> [cachedK] \<Longrightarrow>
      store_write key ps v st = store_write key ps v s \<and> cached_view s key
      \<and> calls s = calls st @ [GetItem key, GetItem key]"
  proof -
    assume r: "res = Ret ()" and "ps \<noteq> [cachedK]"
    have cv: "cached_view s key" using cache_miss_cached[OF sv assms(1)] cm r by simp
    have c: "calls s = calls st @ [GetItem key, GetItem key]"
      using cache_miss_ret(2)[OF sv] cm r by simp
    have "the_handler s key \<noteq> JUndefined" using cv
    proof -
      have "getprop (the_handler s key) cachedK = JBool True"
        using cm r unfolding cache_miss_eq[OF sv]
        by (auto split: prod.splits option.splits dest!: setprop_cached)
      then show ?thesis by auto
    qed
    then have "store_write key ps v s = write_from key HandlerRoot [] ps v s"
      using store_write_view[of s key] cv by (simp add: cached_view_def)
    then show ?thesis using eq cm r cv c by (simp add: andThen_def)
  qed
  show "filter is_get (calls (snd (store_write key ps v st)))
          = filter is_get (calls st) @ [GetItem key, GetItem key]" if ne: "ps \<noteq> [cachedK]"
  proof (cases res)
    case (Throw e)
    then have "calls s = calls st @ [GetItem key, GetItem key]"
      using cm cache_miss_throw[OF sv] by blast
    then show ?thesis using eq cm Throw by (simp add: andThen_def)
  next
    case (Ret u)
    then have a: "store_write key ps v st = store_write key ps v s" "cached_view s key"
        "calls s = calls st @ [GetItem key, GetItem key]" using after ne by simp_all
    from store_write_cached[OF a(2) ne, of v] show ?thesis using a(1,3)
      by (simp add: no_new_gets_def)
  qed
  have read_cached: "cached_view (snd (store_read key ps st)) key"
    if "fst (store_read key ps st) = Ret x"
  proof -
    have rd: "store_read key ps st
              = andThen (cache_miss key) (\<lambda>_. read_from key HandlerRoot [] ps) st"
      using store_read_view[OF assms(1) reg] read_from_load_first[OF assms(2) sv assms(4)] by simp
    have r: "res = Ret ()" using rd cm that by (cases res) (simp_all add: andThen_def)
    have cv: "cached_view s key" using cache_miss_cached[OF sv assms(1)] cm r by simp
    have "snd (read_from key HandlerRoot [] ps s) = s"
      using read_from_pure[of HandlerRoot s key "[]" ps] cached_view_quiet[OF cv] by blast
    then have "snd (store_read key ps st) = s" using rd cm r by (simp add: andThen_def)
    then show ?thesis using cv by simp
  qed
  have write_cached: "cached_view (snd (store_write key ps v st)) key"
    if w: "fst (store_write key ps v st) = Ret () \<and> ps \<noteq> [cachedK]"
  proof (cases res)
    case (Throw e)
    then show ?thesis using eq cm w by (simp add: andThen_def)
  next
    case (Ret u)
    then have a: "store_write key ps v st = store_write key ps v s" "cached_view s key"
      using after w by simp_all
    from store_write_cached[OF a(2), of ps v] w
    show ?thesis using a(1) by (simp add: no_new_gets_def)
  qed
  show "filter is_get (calls (between_all key es (snd (store_read key ps st))))
              = filter is_get (calls (snd (store_read key ps st)))"
    if "fst (store_read key ps st) = Ret x"
    using later_read_quiet[OF read_cached[OF that] assms(5)] by simp
  show "snd (store_read key qs (between_all key es (snd (store_read key ps st))))
              = between_all key es (snd (store_read key ps st))"
    if "fst (store_read key ps st) = Ret x"
    using later_read_quiet[OF read_cached[OF that] assms(5)] by simp
  show "filter is_get (calls (between_all key es (snd (store_write key ps v st))))
              = filter is_get (calls (snd (store_write key ps v st)))"
    if "fst (store_write key ps v st) = Ret () \<and> ps \<noteq> [cachedK]"
    using later_read_quiet[OF write_cached[OF that] assms(5)] by simp
  show "snd (store_read key qs (between_all key es (snd (store_write key ps v st))))
              = between_all key es (snd (store_write key ps v st))"
    if "fst (store_write key ps v st) = Ret () \<and> ps \<noteq> [cachedK]"
    using later_read_quiet[OF write_cached[OF that] assms(5)] by simp
qed

theorem first_access_loads_once_witness:
  "calls (snd (store_read ''mock'' [Field ''foo''] persisted_mock))
     = [GetItem ''mock'', GetItem ''mock'']
   \<and> filter is_get (calls (snd (store_write ''mock'' [Field ''foo''] (JStr ''x'') persisted_mock)))
     = [GetItem ''mock'', GetItem ''mock'']
   \<and> filter is_get (calls (between_all ''mock''
        [Access (WriteAt [Field ''foo''] (JStr ''y'')),
         OutOfBand [''mock'' \<mapsto> JObj [(Field ''foo'', JStr ''new'')]],
         Access (ReadAt [Field ''foo'']),
         Access (WriteAt [Field ''bar''] (JStr ''refused''))]
        (snd (store_read ''mock'' [Field ''foo''] persisted_mock))))
     = [GetItem ''mock'', GetItem ''mock'']
   \<and> snd (store_read ''mock'' [Field ''foo''] (between_all ''mock''
        [Access (WriteAt [Field ''foo''] (JStr ''y'')),
         OutOfBand [''mock'' \<mapsto> JObj [(Field ''foo'', JStr ''new'')]],
         Access (ReadAt [Field ''foo'']),
         Access (WriteAt [Field ''bar''] (JStr ''refused''))]
        (snd (store_read ''mock'' [Field ''foo''] persisted_mock))))
     = between_all ''mock''
        [Access (WriteAt [Field ''foo''] (JStr ''y'')),
         OutOfBand [''mock'' \<mapsto> JObj [(Field ''foo'', JStr ''new'')]],
         Access (ReadAt [Field ''foo'']),
         Access (WriteAt [Field ''bar''] (JStr ''refused''))]
        (snd (store_read ''mock'' [Field ''foo''] persisted_mock))"
proof -
  let ?es = "[Access (WriteAt [Field ''foo''] (JStr ''y'')),
         OutOfBand [''mock'' \<mapsto> JObj [(Field ''foo'', JStr ''new'')]],
         Access (ReadAt [Field ''foo'']),
         Access (WriteAt [Field ''bar''] (JStr ''refused''))]"
  have h1: "slots persisted_mock ''mock'' = Some ViewOf" by code_simp
  have h2: "awaiting_load persisted_mock ''mock''" by code_simp
  have h3: "storage persisted_mock ''mock'' \<noteq> Some JUndefined" by code_simp
  have h4: "[Field ''foo''] \<noteq> []" by simp
  have h5: "[Field ''foo''] \<noteq> [cachedK]" by (simp add: cachedK_def)
  have h6: "fst (store_read ''mock'' [Field ''foo''] persisted_mock) = Ret (JStr '''')" by code_simp
  have h7: "calls persisted_mock = []" by code_simp
  have h8: "list_all (\<lambda>e. \<not> uncaches e) ?es" by (simp add: cachedK_def)
  note t = first_access_loads_once[OF h1 h2 h3 h4 h8, of "JStr ''x''" "JStr ''''" "[Field ''foo'']"]
  have a: "calls (snd (store_read ''mock'' [Field ''foo''] persisted_mock))
             = [GetItem ''mock'', GetItem ''mock'']" using t h7 by simp
  have b: "filter is_get (calls (snd (store_write ''mock'' [Field ''foo''] (JStr ''x'') persisted_mock)))
             = [GetItem ''mock'', GetItem ''mock'']" using t h5 h7 by simp
  have c: "filter is_get (calls (between_all ''mock'' ?es
              (snd (store_read ''mock'' [Field ''foo''] persisted_mock))))
             = filter is_get (calls (snd (store_read ''mock'' [Field ''foo''] persisted_mock)))"
    using t h6 by blast
  have d: "snd (store_read ''mock'' [Field ''foo''] (between_all ''mock'' ?es
              (snd (store_read ''mock'' [Field ''foo''] persisted_mock))))
             = between_all ''mock'' ?es (snd (store_read ''mock'' [Field ''foo''] persisted_mock))"
    using t h6 by blast
  have "filter is_get (calls (snd (store_read ''mock'' [Field ''foo''] persisted_mock)))
          = [GetItem ''mock'', GetItem ''mock'']" using a by simp
  then show ?thesis using a b c d by (simp only:)
qed

text \<open>
  The claim as stated, exactly one \<^verbatim>\<open>get\<close> call, fails on the first read of a key just
  registered as persisted: the cache miss calls \<^verbatim>\<open>_getPersistedProperty\<close> once in its test
  and once more for the value it merges.
\<close>

theorem one_get_call_counterexample:
  "awaiting_load persisted_mock ''mock''
   \<and> length (filter is_get (calls persisted_mock)) = 0
   \<and> length (filter is_get (calls (snd (store_read ''mock'' [Field ''foo''] persisted_mock)))) = 2"
  by code_simp

section \<open>Hydration\<close>

lemma read_from_resolves:
  "\<not> awaiting_load st key \<Longrightarrow> objects_along (subvalue (the_handler st key) pre) path \<Longrightarrow>
   read_from key HandlerRoot pre (path @ [p]) st
     = (Ret (getprop (subvalue (the_handler st key) (pre @ path)) p), st)"
proof (induction path arbitrary: pre)
  case Nil
  then show ?case by (simp add: view_get_pure)
next
  case (Cons q path)
  have ob: "is_object (getprop (subvalue (the_handler st key) pre) q)"
    and rest: "objects_along (subvalue (the_handler st key) (pre @ [q])) path"
    using Cons.prems(2) by (simp_all add: subvalue_snoc)
  obtain r rs where pr: "path @ [p] = r # rs" by (cases "path @ [p]") auto
  have "read_from key HandlerRoot pre ((q # path) @ [p]) st
        = read_from key HandlerRoot (pre @ [q]) (path @ [p]) st"
    using Cons.prems(1) ob pr
    by (simp add: andThen_def view_get_pure through_def ret_def)
  then show ?case using Cons.IH[OF Cons.prems(1) rest] by simp
qed

lemma obj_keys_at_resolves:
  "obj_keys_at t qs = Some ks \<Longrightarrow>
   objects_along t qs \<and> (\<exists>ps. subvalue t qs = JObj ps \<and> map fst ps = ks)"
proof (induction qs arbitrary: t)
  case Nil
  then show ?case by (cases t) auto
next
  case (Cons q qs)
  then obtain ps where t: "t = JObj ps" by (cases t) auto
  then have sub: "obj_keys_at (getprop t q) qs = Some ks" using Cons.prems by simp
  from Cons.IH[OF sub] obj_keys_at_object[OF sub] show ?case
    by (simp del: getprop.simps)
qed

lemma getprop_absent: "q \<notin> set (map fst ps) \<Longrightarrow> getprop (JObj ps) q = JUndefined"
  by (auto simp: map_of_eq_None_iff[symmetric] simp del: map_of_eq_None_iff split: option.splits)

lemma obj_keys_at_mark_cached:
  assumes "obj_keys_at h qs = Some ks" and "obj_keys_at h [] = Some tks" and "cachedK \<in> set tks"
    and "qs = [] \<or> hd qs \<noteq> cachedK"
  shows "obj_keys_at (mark_cached h) qs = Some ks"
proof -
  obtain ps where h: "h = JObj ps" using assms(1) by (cases h) auto
  have key: "cachedK \<in> fst ` set ps" using assms(2,3) h by auto
  show ?thesis
  proof (cases qs)
    case Nil
    then show ?thesis using assms(1) h keys_update_present[OF key] by (simp add: mark_cached_def)
  next
    case (Cons q qs')
    then show ?thesis using assms(1,4) h
      by (simp add: mark_cached_def getprop_update del: getprop.simps)
  qed
qed

lemma subvalue_mark_cached:
  "rs \<noteq> [] \<Longrightarrow> hd rs \<noteq> cachedK \<Longrightarrow> subvalue (mark_cached h) rs = subvalue h rs"
  by (cases rs; cases h) (simp_all add: mark_cached_def update_conv')

lemma first_read_result:
  assumes "slots st key = Some ViewOf" and "awaiting_load st key"
    and "stored_value st key \<noteq> JUndefined" and "ps \<noteq> []"
    and "store_read key ps st = (Ret x, st')"
  shows "st' = put_handler key
                 (mark_cached (fst (assignProps (the_handler st key) (stored_value st key))))
                 (loading key st)"
    and "\<not> awaiting_load st' key"
proof -
  have reg: "the_handler st key \<noteq> JUndefined" using assms(2) by (rule awaiting_registered)
  have eq: "store_read key ps st = andThen (cache_miss key) (\<lambda>_. read_from key HandlerRoot [] ps) st"
    using store_read_view[OF assms(1) reg] read_from_load_first[OF assms(2,3,4)] by simp
  obtain res s where cm: "cache_miss key st = (res, s)" by (cases "cache_miss key st")
  have r: "res = Ret ()" using eq cm assms(5) by (cases res) (simp_all add: andThen_def)
  have q: "\<not> awaiting_load s key" using cache_miss_ret(1)[OF assms(3)] cm r by simp
  have "snd (read_from key HandlerRoot [] ps s) = s"
    using read_from_pure[of HandlerRoot s key "[]" ps] q by blast
  moreover have "read_from key HandlerRoot [] ps s = (Ret x, st')"
    using eq cm r assms(5) by (simp add: andThen_def)
  ultimately have st': "st' = s" by simp
  show "\<not> awaiting_load st' key" using q st' by simp
  show "st' = put_handler key
                 (mark_cached (fst (assignProps (the_handler st key) (stored_value st key))))
                 (loading key st)"
    using cm r st' unfolding cache_miss_eq[OF assms(3)]
    by (auto split: prod.splits option.splits dest!: setprop_cached)
qed

text \<open>
  Claim C6, as amended.  After a first read has hydrated a persisted key from durable
  storage:
  \<^item> if no field name of the stored data, at any depth, is the name of a member inherited
    from \<^verbatim>\<open>Object.prototype\<close> (\<open>plain_names\<close>), every non-array object of the in-memory
    handler, reached through non-array objects (\<open>obj_keys_at\<close>), has exactly the fields it
    had, so a field of the stored data that the object at that place does not have is
    discarded and, its name not being an inherited one, reads \<^verbatim>\<open>undefined\<close> through the
    store;
  \<^item> every field reached through non-array objects that the stored data does not have
    (\<open>untouched_by\<close>) keeps the value it had in memory before the hydration, which is the
    schema default at the first hydration after registration.

  Where the handler holds \<^verbatim>\<open>null\<close> the stored value is taken whole, its fields included.
\<close>

theorem hydration_keeps_schema_fields:
  assumes "slots st key = Some ViewOf"
    and "awaiting_load st key"
    and "storage st key = Some disk_value"
    and "disk_value \<noteq> JUndefined"
    and "store_read key [p] st = (Ret x, st')"
  shows "(plain_names disk_value \<and> obj_keys_at (the_handler st key) qs = Some ks \<longrightarrow>
            obj_keys_at (the_handler st' key) qs = Some ks)
       \<and> (plain_names disk_value \<and> obj_keys_at (the_handler st key) qs = Some ks
            \<and> q \<notin> set ks \<and> \<not> inherited_name q \<longrightarrow>
            fst (store_read key (qs @ [q]) st') = Ret JUndefined)
       \<and> (plain_along (the_handler st key) rs \<and> untouched_by disk_value rs \<and> hd rs \<noteq> cachedK \<longrightarrow>
            subvalue (the_handler st' key) rs = subvalue (the_handler st key) rs)"
proof -
  let ?h = "the_handler st key"
  let ?h' = "fst (assignProps ?h disk_value)"
  have sv: "stored_value st key \<noteq> JUndefined" and sd: "stored_value st key = disk_value"
    using assms(3,4) by (simp_all add: stored_value_def)
  have hs: "the_handler st' key = mark_cached ?h'" and q: "\<not> awaiting_load st' key"
    and sl: "slots st' key = Some ViewOf"
    using first_read_result[OF assms(1,2) sv _ assms(5)] sd assms(1) by simp_all
  obtain ps where h: "?h = JObj ps" and ck: "cachedK \<in> set (map fst ps)"
  proof -
    have "getprop ?h cachedK \<noteq> JUndefined" using assms(2) by (simp add: awaiting_load_def)
    then obtain ps where "?h = JObj ps"
      by (cases ?h) (auto simp: cachedK_def split: if_splits)
    moreover from this \<open>getprop ?h cachedK \<noteq> JUndefined\<close> have "cachedK \<in> set (map fst ps)"
      using getprop_defined_key by fastforce
    ultimately show ?thesis using that by blast
  qed
  have top: "obj_keys_at ?h' [] = Some (map fst ps)" if "plain_names disk_value"
    using keys_kept(1)[of ?h "[]" "map fst ps" disk_value] h that by simp
  have keys: "obj_keys_at (the_handler st' key) qs = Some ks"
    if pn: "plain_names disk_value" and a: "obj_keys_at ?h qs = Some ks" for qs ks
  proof -
    have "qs = [] \<or> hd qs \<noteq> cachedK"
    proof (cases qs)
      case (Cons r qs')
      have "getprop ?h cachedK = JBool False" using assms(2) by (simp add: awaiting_load_def)
      then have "obj_keys_at ?h (cachedK # qs') = None" using h by (simp del: getprop.simps)
      then show ?thesis using a Cons by auto
    qed simp
    then show ?thesis
      using obj_keys_at_mark_cached[OF keys_kept(1)[OF a pn] top[OF pn] ck] hs by simp
  qed
  have reads: "fst (store_read key (qs @ [q]) st') = Ret JUndefined"
    if pn: "plain_names disk_value" and a: "obj_keys_at ?h qs = Some ks" and n: "q \<notin> set ks"
  proof -
    from obj_keys_at_resolves[OF keys[OF pn a]] obtain fs where
      oa: "objects_along (the_handler st' key) qs" and
      sub: "subvalue (the_handler st' key) qs = JObj fs" "map fst fs = ks" by blast
    have reg: "the_handler st' key \<noteq> JUndefined"
      using hs top[OF pn] by (cases ?h') (auto simp: mark_cached_def)
    have "read_from key HandlerRoot [] (qs @ [q]) st' = (Ret (getprop (JObj fs) q), st')"
      using read_from_resolves[OF q, of "[]" qs q] oa sub(1) by simp
    then show ?thesis
      using store_read_view[OF sl reg] getprop_absent[of q fs] n sub(2) by simp
  qed
  have kept: "subvalue (the_handler st' key) rs = subvalue ?h rs"
    if a: "plain_along ?h rs" "untouched_by disk_value rs" "hd rs \<noteq> cachedK"
  proof -
    have "rs \<noteq> []" using a(2) by auto
    then show ?thesis using retained(1)[OF a(1,2)] subvalue_mark_cached[OF _ a(3)] hs by simp
  qed
  show ?thesis using keys reads kept by blast
qed

definition open_schema_mock :: store where
  "open_schema_mock =
     snd (register ''k'' (JObj [(Field ''a'', JNull), (Field ''b'', JStr ''dflt''),
                               (persistedK, JBool True)])
            (empty_store [''k'' \<mapsto> JObj [(Field ''a'', JObj [(Field ''x'', JNum 1)]),
                                         (Field ''z'', JStr ''junk'')]]))"

theorem hydration_keeps_schema_fields_witness:
  "fst (store_read ''k'' [Field ''b''] open_schema_mock) = Ret (JStr ''dflt'')
   \<and> obj_keys_at (the_handler (snd (store_read ''k'' [Field ''b''] open_schema_mock)) ''k'') []
       = Some [Field ''a'', Field ''b'', persistedK, cachedK]
   \<and> fst (store_read ''k'' ([] @ [Field ''z''])
             (snd (store_read ''k'' [Field ''b''] open_schema_mock))) = Ret JUndefined
   \<and> subvalue (the_handler (snd (store_read ''k'' [Field ''b''] open_schema_mock)) ''k'')
        [Field ''b''] = JStr ''dflt''"
proof -
  have h1: "slots open_schema_mock ''k'' = Some ViewOf" by code_simp
  have h2: "awaiting_load open_schema_mock ''k''" by code_simp
  have h3: "storage open_schema_mock ''k''
              = Some (JObj [(Field ''a'', JObj [(Field ''x'', JNum 1)]), (Field ''z'', JStr ''junk'')])"
    by code_simp
  have h4: "JObj [(Field ''a'', JObj [(Field ''x'', JNum 1)]), (Field ''z'', JStr ''junk'')]
              \<noteq> JUndefined" by simp
  have h5: "fst (store_read ''k'' [Field ''b''] open_schema_mock) = Ret (JStr ''dflt'')"
    by code_simp
  then have h5': "store_read ''k'' [Field ''b''] open_schema_mock
      = (Ret (JStr ''dflt''), snd (store_read ''k'' [Field ''b''] open_schema_mock))"
    by (cases "store_read ''k'' [Field ''b''] open_schema_mock") simp
  have k1: "obj_keys_at (the_handler open_schema_mock ''k'') []
              = Some [Field ''a'', Field ''b'', persistedK, cachedK]" by code_simp
  have k2: "Field ''z'' \<notin> set [Field ''a'', Field ''b'', persistedK, cachedK]"
    by (simp add: persistedK_def cachedK_def)
  have k3: "plain_along (the_handler open_schema_mock ''k'') [Field ''b'']" by code_simp
  have k4: "untouched_by
              (JObj [(Field ''a'', JObj [(Field ''x'', JNum 1)]), (Field ''z'', JStr ''junk'')])
              [Field ''b'']" by code_simp
  have k5: "hd [Field ''b''] \<noteq> cachedK" by (simp add: cachedK_def)
  have k6: "subvalue (the_handler open_schema_mock ''k'') [Field ''b''] = JStr ''dflt''"
    by code_simp
  have k7: "plain_names
              (JObj [(Field ''a'', JObj [(Field ''x'', JNum 1)]), (Field ''z'', JStr ''junk'')])"
    by code_simp
  have k8: "\<not> inherited_name (Field ''z'')" by code_simp
  show ?thesis
    using hydration_keeps_schema_fields[OF h1 h2 h3 h4 h5',
        of "[]" "[Field ''a'', Field ''b'', persistedK, cachedK]" "Field ''z''" "[Field ''b'']"]
      h5 k1 k2 k3 k4 k5 k6 k7 k8
    by simp
qed

text \<open>
  The claim as stated fails where the schema gives \<^verbatim>\<open>null\<close> as a default: the merger
  compares no type against \<^verbatim>\<open>null\<close> and assigns the stored object as it is, so the stored
  field \<^verbatim>\<open>a.x\<close>, absent from the schema, is read through the store.
\<close>

theorem null_default_counterexample:
  "subvalue (JObj [(Field ''a'', JNull), (Field ''b'', JStr ''dflt''), (persistedK, JBool True)])
     [Field ''a'', Field ''x''] = JUndefined
   \<and> subvalue (JObj [(Field ''a'', JObj [(Field ''x'', JNum 1)]), (Field ''z'', JStr ''junk'')])
     [Field ''a'', Field ''x''] = JNum 1
   \<and> fst (store_read ''k'' [Field ''a'', Field ''x''] open_schema_mock) = Ret (JNum 1)"
  by code_simp

section \<open>Reassigning a whole key\<close>

text \<open>
  \<^verbatim>\<open>Store.key = newValue\<close> reads the present flag through the view (which may run the
  lazy load), compares it loosely, and for a persisted key sets both flags on the new value
  before it stores and persists it.
\<close>

lemma andThen_Ret:
  assumes "andThen m f st = (Ret y, s)"
  obtains x s0 where "m st = (Ret x, s0)" and "f x s0 = (Ret y, s)"
  using assms by (auto simp add: andThen_def split: prod.splits outcome.splits)

lemma andThen_slots:
  assumes "\<And>s. slots (snd (m s)) = slots s" and "\<And>x s. slots (snd (f x s)) = slots s"
  shows "slots (snd (andThen m f st)) = slots st"
proof (cases "m st")
  case (Pair r s)
  have a: "slots s = slots st" using assms(1)[of st] Pair by simp
  show ?thesis
  proof (cases r)
    case (Ret x)
    then show ?thesis using Pair a assms(2)[of x s] by (simp add: andThen_def)
  next
    case (Throw e)
    then show ?thesis using Pair a by (simp add: andThen_def)
  qed
qed

lemma cache_miss_slots: "slots (snd (cache_miss key st)) = slots st"
  unfolding cache_miss_def
  by (intro andThen_slots)
     (auto intro!: andThen_slots
        simp add: getPersistedProperty_def assign_into_handler_def assign_raw_def put_root_def ret_def
        split: prod.splits option.splits)

lemma setprop_get: "setprop t p v = Some t' \<Longrightarrow> getprop t' p = v"
proof (cases t)
  case (JObj ps)
  assume "setprop t p v = Some t'"
  then show ?thesis using JObj by (auto simp add: getprop_update simp del: getprop.simps)
next
  case (JArr xs)
  assume a: "setprop t p v = Some t'"
  show ?thesis
  proof (cases p)
    case (Index i)
    then show ?thesis using a JArr by (auto split: if_splits simp: nth_append)
  next
    case (Field f)
    then show ?thesis using a JArr by (auto split: if_splits jsval.splits)
  qed
qed auto

lemma cache_miss_settles:
  assumes "cache_miss key st = (Ret u, s)"
  shows "getprop (the_handler s key) cachedK = JBool True"
proof -
  from assms obtain x s0 where "andThen (if x \<noteq> JUndefined
              then andThen (getPersistedProperty key) (assign_into_handler key)
              else ret ()) (\<lambda>_. assign_raw key HandlerRoot [] cachedK (JBool True)) s0 = (Ret u, s)"
    unfolding cache_miss_def by (rule andThen_Ret)
  then obtain y s1 where "assign_raw key HandlerRoot [] cachedK (JBool True) s1 = (Ret u, s)"
    by (rule andThen_Ret)
  then obtain t where "setprop (the_handler s1 key) cachedK (JBool True) = Some t"
    and "s = put_handler key t s1"
    by (auto simp add: assign_raw_def put_root_def split: option.splits)
  then show ?thesis using setprop_get by simp
qed

lemma proxy_get_settles:
  assumes "proxy_get key HandlerRoot [] p st = (Ret x, s)"
  shows "\<not> awaiting_load s key" and "slots s = slots st"
proof -
  show "\<not> awaiting_load s key"
  proof (cases "awaiting_load st key")
    case False
    then show ?thesis using assms by (simp add: proxy_get_pure is_handler_def)
  next
    case True
    then obtain u s0 where "cache_miss key st = (Ret u, s0)" and "s = s0"
      using assms
      by (auto simp add: proxy_get_def is_handler_def awaiting_load_def andThen_def
          split: prod.splits outcome.splits)
    then show ?thesis using cache_miss_settles by (simp add: awaiting_load_def)
  qed
  have "snd (proxy_get key HandlerRoot [] p st) = st
        \<or> snd (proxy_get key HandlerRoot [] p st) = snd (cache_miss key st)"
    by (auto simp add: proxy_get_def andThen_def split: prod.splits outcome.splits)
  then show "slots s = slots st" using assms cache_miss_slots[of key st] by auto
qed

lemma proxy_get_value:
  "proxy_get key HandlerRoot [] p st = (Ret x, s) \<Longrightarrow> x = getprop (the_handler s key) p"
  by (auto simp: proxy_get_def andThen_def split: if_splits prod.splits outcome.splits)

text \<open>
  A read of a top-level property through the view of the handler is decided by the first
  call of the \<^verbatim>\<open>get\<close> trap: it loads or throws, and what follows it finds the key loaded.
\<close>

lemma view_get_first:
  "view_get key HandlerRoot [] p st = proxy_get key HandlerRoot [] p st"
proof (cases "proxy_get key HandlerRoot [] p st")
  case (Pair r s0)
  show ?thesis
  proof (cases r)
    case (Throw e)
    then show ?thesis using Pair by (simp add: view_get_def andThen_def)
  next
    case (Ret y)
    then have pg: "proxy_get key HandlerRoot [] p st = (Ret y, s0)" using Pair by simp
    have q: "\<not> awaiting_load s0 key" using proxy_get_settles(1)[OF pg] .
    have y: "y = getprop (the_handler s0 key) p" using proxy_get_value[OF pg] .
    have "proxy_get key HandlerRoot [] p s0 = (Ret y, s0)"
      using q y by (simp add: proxy_get_pure is_handler_def)
    then show ?thesis using pg by (simp add: view_get_def andThen_def)
  qed
qed

lemma read_flag_as_trap:
  assumes "slots st key = Some ViewOf" and "storage st key \<noteq> Some JUndefined"
    and "store_read key [p] st = (Ret x, s)"
  shows "proxy_get key HandlerRoot [] p st = (Ret x, s) \<and> the_handler st key \<noteq> JUndefined"
proof -
  have reg: "the_handler st key \<noteq> JUndefined"
  proof
    assume "the_handler st key = JUndefined"
    then have "store_read key [p] st = (Throw JsTypeError, st)" using assms(1)
      by (simp add: store_read_def facade_get_def andThen_def through_def is_object_def throw_def)
    then show False using assms(3) by simp
  qed
  then show ?thesis using assms(3) store_read_view[OF assms(1) reg, of "[p]"] view_get_first by simp
qed

lemma persist_plain:
  assumes "slots st key = Some (Plain (JObj ps))" and "getprop (JObj ps) persistedK = JBool True"
  shows "persist key st =
           (Ret (), put_slot key (Some (Plain (restore_flags (strip_flags (JObj ps)))))
                      (persisted_state key (JObj ps) st))"
  using assms
  by (simp add: persist_def andThen_def root_value_def put_root_def put_slot_def
      setPersistedProperty_def assign_raw_def strip_flags_def restore_flags_def
      persisted_state_def fun_upd_twist
      del: getprop.simps)

lemma loose_eq_flag:
  "supplied = JNull \<or> typeof supplied = T_boolean \<or> typeof supplied = T_number \<Longrightarrow>
   loose_eq supplied (JBool flag) \<noteq> None"
  by (cases supplied) auto

lemma store_read_plain_slot:
  assumes "slots st key = Some (Plain (JObj ps))" and "the_handler st key \<noteq> JUndefined"
  shows "store_read key [k] st = (Ret (getprop (JObj ps) k), st)"
  using assms
  by (simp add: store_read_def facade_get_def andThen_def is_object_def view_get_def
      proxy_get_def is_handler_def target_of_def root_value_def del: getprop.simps)

lemma restored_flags:
  "getprop (restore_flags (strip_flags (JObj ps))) cachedK = JBool True"
  "getprop (restore_flags (strip_flags (JObj ps))) persistedK = JBool True"
  by (simp_all add: restore_flags_def strip_flags_def update_conv')

text \<open>How the facade's \<^verbatim>\<open>set\<close> finds the present flag, \<^verbatim>\<open>_Store[property]['_persisted']\<close>.\<close>

definition present_flag :: "string \<Rightarrow> jsval action" where
  "present_flag key st =
     (case slots st key of
        None \<Rightarrow> throw JsTypeError
      | Some ViewOf \<Rightarrow> proxy_get key HandlerRoot [] persistedK
      | Some (Plain x) \<Rightarrow>
          if x = JUndefined \<or> x = JNull then throw JsTypeError
          else ret (getprop x persistedK)) st"

lemma store_assign_registered:
  "the_handler st key \<noteq> JUndefined \<Longrightarrow>
   store_assign key v st =
     andThen (present_flag key)
       (\<lambda>persisted.
          if v = JUndefined \<or> v = JNull then throw JsTypeError
          else if getprop v persistedK \<noteq> JUndefined \<and> loose_eq (getprop v persistedK) persisted = None
          then throw Unmodelled
          else if getprop v persistedK \<noteq> JUndefined
                  \<and> loose_eq (getprop v persistedK) persisted = Some False
          then throw (ReassignPersisted key)
          else if truthy persisted then
            (case force_flags v of
               None \<Rightarrow> throw Unmodelled
             | Some v' \<Rightarrow>
                 andThen (\<lambda>s. (Ret (), put_slot key (Some (Plain v')) s)) (\<lambda>_. persist key))
          else (\<lambda>s. (Ret (), put_slot key (Some (Plain v)) s))) st"
  by (simp add: store_assign_def andThen_def present_flag_def del: getprop.simps)

lemma flag_read_returns:
  assumes "the_handler st key \<noteq> JUndefined" and "store_read key [persistedK] st = (Ret x, s)"
  shows "present_flag key st = (Ret x, s) \<and> the_handler s key \<noteq> JUndefined"
proof (cases "slots st key")
  case None
  then show ?thesis using assms
    by (simp add: store_read_def facade_get_def andThen_def)
next
  case (Some sl)
  show ?thesis
  proof (cases sl)
    case ViewOf
    then have sl: "slots st key = Some ViewOf" using Some by simp
    have pg: "proxy_get key HandlerRoot [] persistedK st = (Ret x, s)"
      using assms(2) store_read_view[OF sl assms(1), of "[persistedK]"] view_get_first by simp
    have "the_handler s key \<noteq> JUndefined"
    proof (cases "awaiting_load st key")
      case False
      then show ?thesis using pg assms(1) by (simp add: proxy_get_pure is_handler_def)
    next
      case True
      then obtain u where "cache_miss key st = (Ret u, s)"
        using pg
        by (auto simp add: proxy_get_def is_handler_def awaiting_load_def andThen_def
            split: prod.splits outcome.splits)
      then show ?thesis using cache_miss_settles by fastforce
    qed
    then show ?thesis using pg sl by (simp add: present_flag_def)
  next
    case (Plain y)
    then have sl: "slots st key = Some (Plain y)" using Some by simp
    show ?thesis
    proof (cases "is_object y \<or> typeof y = T_function")
      case False
      then show ?thesis using assms sl
        by (simp add: store_read_def facade_get_def andThen_def)
    next
      case True
      then have "store_read key [persistedK] st = (Ret (getprop y persistedK), st)"
        using assms(1) sl
        by (simp add: store_read_def facade_get_def andThen_def view_get_def proxy_get_def
            is_handler_def target_of_def root_value_def del: getprop.simps)
      moreover have "y \<noteq> JUndefined \<and> y \<noteq> JNull" using True by (auto simp add: is_object_def)
      ultimately show ?thesis using assms sl
        by (simp add: present_flag_def ret_def del: getprop.simps)
    qed
  qed
qed

lemma flag_read_throws:
  assumes "slots st key = Some ViewOf" and "the_handler st key \<noteq> JUndefined"
    and "store_read key [persistedK] st = (Throw e, s)"
  shows "present_flag key st = (Throw e, s)"
  using assms store_read_view[OF assms(1,2), of "[persistedK]"] view_get_first
  by (simp add: present_flag_def)

text \<open>
  Claim C4, as amended.  For a registered key and a new object whose \<^verbatim>\<open>_persisted\<close> is
  absent, \<^verbatim>\<open>null\<close>, a boolean or a number:
  \<^item> the reassignment first reads the present flag through the view; on a persisted key
    that awaits its load this read is the lazy load, and when it throws (the stored data
    does not match the schema) the reassignment throws the same error, whatever the new
    object supplies;
  \<^item> when the flag reads as a boolean, the reassignment is refused exactly when
    \<^verbatim>\<open>_persisted\<close> is supplied and is not loosely equal to the flag, and otherwise it returns
    normally;
  \<^item> when the key is persisted and the reassignment is accepted, both \<^verbatim>\<open>_cached\<close> and
    \<^verbatim>\<open>_persisted\<close> read \<^verbatim>\<open>true\<close> afterwards, whatever \<^verbatim>\<open>_cached\<close> the new object supplied.
\<close>

theorem whole_key_reassignment:
  assumes "the_handler st key \<noteq> JUndefined"
    and "supplied = getprop (JObj vps) persistedK"
    and "supplied = JUndefined \<or> supplied = JNull
         \<or> typeof supplied = T_boolean \<or> typeof supplied = T_number"
  shows "(slots st key = Some ViewOf \<and> store_read key [persistedK] st = (Throw e, s)
            \<longrightarrow> store_assign key (JObj vps) st = (Throw e, s))
       \<and> (store_read key [persistedK] st = (Ret (JBool flag), s) \<longrightarrow>
            (fst (store_assign key (JObj vps) st) = Throw (ReassignPersisted key))
               = (supplied \<noteq> JUndefined \<and> loose_eq supplied (JBool flag) = Some False)
            \<and> (\<not> (supplied \<noteq> JUndefined \<and> loose_eq supplied (JBool flag) = Some False)
                 \<longrightarrow> fst (store_assign key (JObj vps) st) = Ret ())
            \<and> (flag \<and> fst (store_assign key (JObj vps) st) = Ret ()
                 \<longrightarrow> fst (store_read key [cachedK] (snd (store_assign key (JObj vps) st)))
                       = Ret (JBool True)
                   \<and> fst (store_read key [persistedK] (snd (store_assign key (JObj vps) st)))
                       = Ret (JBool True)))"
proof (intro conjI impI)
  let ?v = "JObj vps"
  let ?bad = "supplied \<noteq> JUndefined \<and> loose_eq supplied (JBool flag) = Some False"
  note sa = store_assign_registered[OF assms(1), of ?v]
  show "store_assign key ?v st = (Throw e, s)"
    if "slots st key = Some ViewOf \<and> store_read key [persistedK] st = (Throw e, s)"
    using flag_read_throws[OF _ assms(1), of e s] that sa by (simp add: andThen_def)
  have none: "supplied \<noteq> JUndefined \<Longrightarrow> loose_eq supplied (JBool flag) \<noteq> None"
    using assms(3) loose_eq_flag by blast
  have main: "(fst (store_assign key ?v st) = Throw (ReassignPersisted key)) = ?bad
            \<and> (\<not> ?bad \<longrightarrow> fst (store_assign key ?v st) = Ret ())
            \<and> (flag \<and> fst (store_assign key ?v st) = Ret ()
                 \<longrightarrow> fst (store_read key [cachedK] (snd (store_assign key ?v st)))
                       = Ret (JBool True)
                   \<and> fst (store_read key [persistedK] (snd (store_assign key ?v st)))
                       = Ret (JBool True))"
    if rd: "store_read key [persistedK] st = (Ret (JBool flag), s)"
  proof -
    from flag_read_returns[OF assms(1) rd]
    have pf: "present_flag key st = (Ret (JBool flag), s)"
      and regs: "the_handler s key \<noteq> JUndefined" by simp_all
    show ?thesis
    proof (cases ?bad)
      case True
      then have "store_assign key ?v st = (Throw (ReassignPersisted key), s)"
        using assms(2) pf sa by (simp add: andThen_def throw_def del: getprop.simps)
      then show ?thesis using True by simp
    next
      case good: False
      then have ok: "\<not> (getprop ?v persistedK \<noteq> JUndefined
                        \<and> loose_eq (getprop ?v persistedK) (JBool flag) = None)"
        "\<not> (getprop ?v persistedK \<noteq> JUndefined
                        \<and> loose_eq (getprop ?v persistedK) (JBool flag) = Some False)"
        using none assms(2) by auto
      show ?thesis
      proof (cases flag)
        case False
        then have "store_assign key ?v st = (Ret (), put_slot key (Some (Plain ?v)) s)"
          using pf ok sa by (simp add: andThen_def throw_def del: getprop.simps)
        then show ?thesis using good False by simp
      next
        case True
        let ?v' = "JObj (AList.update cachedK (JBool True) (AList.update persistedK (JBool True) vps))"
        let ?s1 = "put_slot key (Some (Plain ?v')) s"
        have ff: "force_flags ?v = Some ?v'" by (simp add: force_flags_def)
        have p: "persist key ?s1 = (Ret (), put_slot key (Some (Plain (restore_flags (strip_flags ?v'))))
                      (persisted_state key ?v' ?s1))"
          by (rule persist_plain) (simp_all add: update_conv')
        have r: "store_assign key ?v st
                = (Ret (), put_slot key (Some (Plain (restore_flags (strip_flags ?v'))))
                      (persisted_state key ?v' ?s1))"
          using pf ok True ff p sa by (simp add: andThen_def throw_def del: getprop.simps)
        let ?s2 = "put_slot key (Some (Plain (restore_flags (strip_flags ?v'))))
                      (persisted_state key ?v' ?s1)"
        obtain fs where fs: "restore_flags (strip_flags ?v') = JObj fs"
          by (simp add: restore_flags_def strip_flags_def)
        have sl: "slots ?s2 key = Some (Plain (JObj fs))" using fs by simp
        have rg: "the_handler ?s2 key \<noteq> JUndefined" using regs by (simp add: persisted_state_def)
        have "store_read key [cachedK] ?s2 = (Ret (JBool True), ?s2)"
             "store_read key [persistedK] ?s2 = (Ret (JBool True), ?s2)"
          using store_read_plain_slot[OF sl rg] restored_flags[of "AList.update cachedK (JBool True) (AList.update persistedK (JBool True) vps)"] fs
          by (simp_all del: getprop.simps)
        then show ?thesis using r good by simp
      qed
    qed
  qed
  show "(fst (store_assign key ?v st) = Throw (ReassignPersisted key)) = ?bad"
    if "store_read key [persistedK] st = (Ret (JBool flag), s)" using main[OF that] by blast
  show "fst (store_assign key ?v st) = Ret ()"
    if "store_read key [persistedK] st = (Ret (JBool flag), s)" and "\<not> ?bad"
    using main[OF that(1)] that(2) by blast
  show "fst (store_read key [cachedK] (snd (store_assign key ?v st))) = Ret (JBool True)"
    if "store_read key [persistedK] st = (Ret (JBool flag), s)"
      and "flag \<and> fst (store_assign key ?v st) = Ret ()"
    using main[OF that(1)] that(2) by blast
  show "fst (store_read key [persistedK] (snd (store_assign key ?v st))) = Ret (JBool True)"
    if "store_read key [persistedK] st = (Ret (JBool flag), s)"
      and "flag \<and> fst (store_assign key ?v st) = Ret ()"
    using main[OF that(1)] that(2) by blast
qed

text \<open>
  A key registered as persisted over a stored entry whose field \<^verbatim>\<open>foo\<close> is a number where the
  schema has a string.
\<close>

definition mismatched_mock :: store where
  "mismatched_mock =
     snd (register ''mock'' (JObj [(Field ''foo'', JStr ''''), (persistedK, JBool True)])
            (empty_store [''mock'' \<mapsto> JObj [(Field ''foo'', JNum 5)]]))"

theorem whole_key_reassignment_witness:
  "fst (store_assign ''mock'' (JObj [(Field ''foo'', JStr ''y''), (persistedK, JBool False)])
          persisted_mock) = Throw (ReassignPersisted ''mock'')
   \<and> fst (store_assign ''mock'' (JObj [(Field ''foo'', JStr ''y''), (cachedK, JBool False)])
          persisted_mock) = Ret ()
   \<and> fst (store_read ''mock'' [cachedK]
        (snd (store_assign ''mock'' (JObj [(Field ''foo'', JStr ''y''), (cachedK, JBool False)])
                persisted_mock))) = Ret (JBool True)
   \<and> fst (store_assign ''mock'' (JObj [(Field ''foo'', JStr ''y''), (cachedK, JBool False)])
          mismatched_mock) = Throw PersistentStructureMismatch"
proof -
  have r1: "the_handler persisted_mock ''mock'' \<noteq> JUndefined" by code_simp
  have r2: "the_handler mismatched_mock ''mock'' \<noteq> JUndefined" by code_simp
  have s2: "slots mismatched_mock ''mock'' = Some ViewOf" by code_simp
  have h3: "fst (store_read ''mock'' [persistedK] persisted_mock) = Ret (JBool True)" by code_simp
  then have h3': "store_read ''mock'' [persistedK] persisted_mock
      = (Ret (JBool True), snd (store_read ''mock'' [persistedK] persisted_mock))"
    by (cases "store_read ''mock'' [persistedK] persisted_mock") simp
  have h4: "fst (store_read ''mock'' [persistedK] mismatched_mock)
              = Throw PersistentStructureMismatch" by code_simp
  then have h4': "store_read ''mock'' [persistedK] mismatched_mock
      = (Throw PersistentStructureMismatch, snd (store_read ''mock'' [persistedK] mismatched_mock))"
    by (cases "store_read ''mock'' [persistedK] mismatched_mock") simp
  have a: "JBool False = getprop (JObj [(Field ''foo'', JStr ''y''), (persistedK, JBool False)]) persistedK"
    by (simp add: persistedK_def)
  have b: "JUndefined = getprop (JObj [(Field ''foo'', JStr ''y''), (cachedK, JBool False)]) persistedK"
    by (simp add: persistedK_def cachedK_def)
  have c: "store_assign ''mock'' (JObj [(Field ''foo'', JStr ''y''), (cachedK, JBool False)])
             mismatched_mock
           = (Throw PersistentStructureMismatch,
              snd (store_read ''mock'' [persistedK] mismatched_mock))"
    using whole_key_reassignment[OF r2 b, where e = PersistentStructureMismatch
        and s = "snd (store_read ''mock'' [persistedK] mismatched_mock)"] s2 h4' by simp
  show ?thesis
    using whole_key_reassignment[OF r1 a, where flag = True
        and s = "snd (store_read ''mock'' [persistedK] persisted_mock)"]
      whole_key_reassignment[OF r1 b, where flag = True
        and s = "snd (store_read ''mock'' [persistedK] persisted_mock)"]
      h3' c
    by simp
qed

text \<open>
  The claim as stated fails on a persisted key that still awaits its load: the stored entry
  does not match the schema, and a reassignment that leaves \<^verbatim>\<open>_persisted\<close> out does not
  succeed, it throws the error of the hydration.
\<close>

theorem reassignment_hydration_counterexample:
  "awaiting_load mismatched_mock ''mock''
   \<and> getprop (JObj [(Field ''foo'', JStr ''y'')]) persistedK = JUndefined
   \<and> fst (store_assign ''mock'' (JObj [(Field ''foo'', JStr ''y'')]) mismatched_mock)
       = Throw PersistentStructureMismatch"
  by code_simp

section \<open>Writing a field and reading it back\<close>

text \<open>
  A write to a field that returns leaves the key loaded and the field holding the value
  written, through both runs of \<^verbatim>\<open>_persist\<close>, which touch the two reserved fields only.
\<close>

definition same_fields :: "jsval \<Rightarrow> jsval \<Rightarrow> bool" where
  "same_fields h h' = (\<forall>q. \<not> reserved q \<longrightarrow> getprop h' q = getprop h q)"

lemma same_fields_refl [simp]: "same_fields h h"
  by (simp add: same_fields_def)










lemma persisted_state_fields [simp]:
  "slots (persisted_state key h st) = slots st"
  "the_handler (persisted_state key h st) k = the_handler st k"
  by (simp_all add: persisted_state_def the_handler_def)

lemma awaiting_persisted_state [simp]:
  "awaiting_load (persisted_state k h st) key = awaiting_load st key"
  by (simp add: awaiting_load_def)








lemma reserved_keys [simp]: "reserved cachedK" "reserved persistedK"
  by (simp_all add: reserved_def)








text \<open>
  \<^verbatim>\<open>clearCache\<close> touches one key at a time: the handler loses \<^verbatim>\<open>_cached\<close>, the key is
  deleted from the store and the same handler object, with every field as it stands in
  memory, is registered again.
\<close>

definition same_at :: "string \<Rightarrow> store \<Rightarrow> store \<Rightarrow> bool" where
  "same_at key st s =
     (the_handler s key = the_handler st key \<and> slots s key = slots st key
      \<and> storage s = storage st)"

lemma same_at_refl [simp]: "same_at key st st"
  by (simp add: same_at_def)

lemma same_at_trans: "same_at key a b \<Longrightarrow> same_at key b c \<Longrightarrow> same_at key a c"
  by (simp add: same_at_def)























end
